theory Spec2Isabelle
  imports Main
begin

section \<open>Errors\<close>

text \<open>
  Every \<^verbatim>\<open>throw\<close> of \<^verbatim>\<open>anatomize.ts\<close> is a value of this type. The constructor names the
  JavaScript error class and the message:
  \<^item> \<open>SyntaxError_WhilstParsing\<close>: SyntaxError "Unexpected Method Call; Method may not be
    called whilst parsing" (thrown by \<^verbatim>\<open>#errorIfParsing\<close>);
  \<^item> \<open>SyntaxError_NotParsing\<close>: SyntaxError "Unexpected Method Call; Method may only be
    called whilst parsing" (thrown by \<^verbatim>\<open>#errorIfNotParsing\<close>);
  \<^item> \<open>SyntaxError_UndefinedToken INPUT\<close>: SyntaxError "Undefined Token ...";
  \<^item> \<open>SyntaxError_EndOfInput\<close>: SyntaxError "Unexpected End of Input; Cannot read another
    Token";
  \<^item> \<open>SyntaxError_UnexpectedToken expected got\<close>: SyntaxError "Unexpected Token; Expected
    ..., got ...";
  \<^item> \<open>TypeError_TypeOfMatcher\<close>: TypeError "Unexpected Type of Matcher; ...";
  \<^item> \<open>RangeError_Read\<close>, \<open>RangeError_Omit\<close>: RangeError "Unexpected End of Input; Cannot
    read (omit) another Character";
  \<^item> \<open>UserError n\<close>: whatever a matcher routine or the main function throws itself.
\<close>

datatype error =
    SyntaxError_WhilstParsing
  | SyntaxError_NotParsing
  | SyntaxError_UndefinedToken string
  | SyntaxError_EndOfInput
  | SyntaxError_UnexpectedToken string string
  | TypeError_TypeOfMatcher
  | RangeError_Read
  | RangeError_Omit
  | UserError nat

section \<open>The character matcher (class \<^verbatim>\<open>#Matcher\<close>)\<close>

text \<open>
  The optional argument of \<^verbatim>\<open>readChar\<close> and \<^verbatim>\<open>omitChar\<close>: \<^verbatim>\<open>null\<close>, a string or
  an array of strings.
\<close>

datatype constraint = CNull | CString string | CArray "string list"

text \<open>
  The private fields \<^verbatim>\<open>#buffer\<close>, \<^verbatim>\<open>#index\<close> and \<^verbatim>\<open>#result\<close> of a matcher (the
  prefix keeps them apart from the tokenizer's fields of the same names). A character is
  an element of a string, as \<^verbatim>\<open>this.#buffer[i]\<close> is.
\<close>

record Matcher =
  m_buffer :: string
  m_index :: nat
  m_result :: string

text \<open>\<^verbatim>\<open>#isEOF = () => this.#index >= this.#buffer.length\<close>\<close>

definition m_isEOF :: "Matcher \<Rightarrow> bool" where
  "m_isEOF m = (m_index m \<ge> length (m_buffer m))"

text \<open>
  \<^verbatim>\<open>s[i]\<close> on a JavaScript string: the character at \<open>i\<close>, or \<^verbatim>\<open>undefined\<close> (here
  \<open>None\<close>) when \<open>i\<close> is negative or not below the length.
\<close>

definition js_at :: "'a list \<Rightarrow> int \<Rightarrow> 'a option" where
  "js_at xs i = (if 0 \<le> i \<and> i < int (length xs) then Some (xs ! nat i) else None)"

text \<open>\<^verbatim>\<open>#charAt = (index) => this.#buffer[index]\<close>\<close>

definition charAt :: "Matcher \<Rightarrow> int \<Rightarrow> char option" where
  "charAt m i = js_at (m_buffer m) i"

text \<open>\<^verbatim>\<open>#peekChar = (offset = 0) => this.#buffer[this.#index + offset]\<close>\<close>

definition peekChar :: "Matcher \<Rightarrow> int \<Rightarrow> char option" where
  "peekChar m offset = js_at (m_buffer m) (int (m_index m) + offset)"

text \<open>\<^verbatim>\<open>if (constraint)\<close>: \<^verbatim>\<open>null\<close> and the empty string are falsy, every array is truthy.\<close>

fun constraint_truthy :: "constraint \<Rightarrow> bool" where
  "constraint_truthy CNull = False"
| "constraint_truthy (CString s) = (s \<noteq> [])"
| "constraint_truthy (CArray cs) = True"

text \<open>
  \<^verbatim>\<open>#constraintCheck(input, constraint)\<close>: an array constraint holds when it includes the
  one-character string \<open>input\<close>; any other constraint is converted with \<^verbatim>\<open>String\<close> and its
  first character compared (\<^verbatim>\<open>String(null)\<close> is \<^verbatim>\<open>"null"\<close>).
\<close>

fun constraintCheck :: "char \<Rightarrow> constraint \<Rightarrow> bool" where
  "constraintCheck input (CArray cs) = ([input] \<in> set cs)"
| "constraintCheck input (CString s) = (take 1 s = [input])"
| "constraintCheck input CNull = (take 1 ''null'' = [input])"

text \<open>
  \<^verbatim>\<open>#readChar(constraint = null)\<close>: throws past the end; returns \<^verbatim>\<open>null\<close> (here
  \<open>Inr None\<close>) without advancing when the constraint fails; otherwise appends the current
  character to the result and advances.
\<close>

definition readChar :: "constraint \<Rightarrow> Matcher \<Rightarrow> (error + char option) \<times> Matcher" where
  "readChar c m =
     (if m_isEOF m then (Inl RangeError_Read, m)
      else if constraint_truthy c \<and> \<not> constraintCheck (m_buffer m ! m_index m) c
        then (Inr None, m)
      else (Inr (Some (m_buffer m ! m_index m)),
            m\<lparr>m_result := m_result m @ [m_buffer m ! m_index m], m_index := m_index m + 1\<rparr>))"

text \<open>\<^verbatim>\<open>#omitChar(constraint = null)\<close>: as \<^verbatim>\<open>readChar\<close>, without appending to the result.\<close>

definition omitChar :: "constraint \<Rightarrow> Matcher \<Rightarrow> (error + char option) \<times> Matcher" where
  "omitChar c m =
     (if m_isEOF m then (Inl RangeError_Omit, m)
      else if constraint_truthy c \<and> \<not> constraintCheck (m_buffer m ! m_index m) c
        then (Inr None, m)
      else (Inr (Some (m_buffer m ! m_index m)), m\<lparr>m_index := m_index m + 1\<rparr>))"

text \<open>\<^verbatim>\<open>#getIndex = () => this.#index\<close>\<close>

definition getIndex :: "Matcher \<Rightarrow> nat" where
  "getIndex m = m_index m"

text \<open>
  What a matcher routine returns: \<^verbatim>\<open>false\<close>, \<^verbatim>\<open>null\<close>, or anything else (\<^verbatim>\<open>undefined\<close>
  and \<^verbatim>\<open>true\<close> included); \<^verbatim>\<open>#readToken\<close> only tests \<^verbatim>\<open>[false, null].includes(...)\<close>.
\<close>

datatype retval = RetFalse | RetNull | RetOther

text \<open>
  The matcher routine \<^verbatim>\<open>#pattern\<close> is user code that receives the six primitives
  \<^verbatim>\<open>(readChar, peekChar, omitChar, isEOF, charAt, getIndex)\<close> and can touch the matcher's
  private state only by calling them. It is modelled as the tree of its calls: each node
  is one call of a primitive with its argument, and the continuation says how the routine
  goes on from what the call gave back; for \<^verbatim>\<open>readChar\<close> and \<^verbatim>\<open>omitChar\<close> that is
  either the returned value or the thrown RangeError, which the routine may rethrow
  (\<open>Throw\<close>) or catch. A leaf returns a value or throws. Every routine of this type
  returns or throws after finitely many calls; a routine that never returns has no tree.
\<close>

datatype routine =
    Return retval
  | Throw error
  | ReadChar constraint "error + char option \<Rightarrow> routine"
  | PeekChar int "char option \<Rightarrow> routine"
  | OmitChar constraint "error + char option \<Rightarrow> routine"
  | IsEOF "bool \<Rightarrow> routine"
  | CharAt int "char option \<Rightarrow> routine"
  | GetIndex "nat \<Rightarrow> routine"

text \<open>Running the routine against the matcher state: the call \<^verbatim>\<open>this.#pattern(...)\<close>.\<close>

primrec run_pattern :: "routine \<Rightarrow> Matcher \<Rightarrow> (error + retval) \<times> Matcher" where
  "run_pattern (Return r) m = (Inr r, m)"
| "run_pattern (Throw e) m = (Inl e, m)"
| "run_pattern (ReadChar c k) m = (case readChar c m of (out, m') \<Rightarrow> run_pattern (k out) m')"
| "run_pattern (PeekChar offset k) m = run_pattern (k (peekChar m offset)) m"
| "run_pattern (OmitChar c k) m = (case omitChar c m of (out, m') \<Rightarrow> run_pattern (k out) m')"
| "run_pattern (IsEOF k) m = run_pattern (k (m_isEOF m)) m"
| "run_pattern (CharAt i k) m = run_pattern (k (charAt m i)) m"
| "run_pattern (GetIndex k) m = run_pattern (k (getIndex m)) m"

text \<open>
  \<^verbatim>\<open>match(input)\<close> resets the state, runs the routine and returns
  \<^verbatim>\<open>[pattern(...), this.#result || null, this.#index]\<close>; an error thrown by the routine
  propagates.
\<close>

definition match :: "routine \<Rightarrow> string \<Rightarrow> error + (retval \<times> string option \<times> nat)" where
  "match pattern input =
     (case run_pattern pattern \<lparr>m_buffer = input, m_index = 0, m_result = []\<rparr> of
        (Inl e, m) \<Rightarrow> Inl e
      | (Inr r, m) \<Rightarrow>
          Inr (r, (if m_result m = [] then None else Some (m_result m)), m_index m))"

section \<open>Token types and tokens\<close>

text \<open>
  A RegExp is a value of the host platform. \<^verbatim>\<open>INPUT.match(re)\<close> gives \<^verbatim>\<open>null\<close> or the
  leftmost match: the index where it starts and the matched text \<^verbatim>\<open>[0]\<close>. The RegExp is
  taken as that function of the input (a RegExp without the flags \<^verbatim>\<open>g\<close> and \<^verbatim>\<open>y\<close>,
  which has no state between calls). The code reads the text only, never the index.
\<close>

type_synonym RegExp = "string \<Rightarrow> (nat \<times> string) option"

datatype matcher = MatcherObj routine | RegExpObj RegExp

record TokenType =
  name :: "string option"
  matcher :: matcher
  hidden :: bool

text \<open>
  The interface \<^verbatim>\<open>Token\<close> with its fields \<^verbatim>\<open>type\<close>, \<^verbatim>\<open>value\<close> and \<^verbatim>\<open>hidden\<close>. An
  entry of the lookahead buffer is a \<open>Token option\<close>: \<open>None\<close> is \<^verbatim>\<open>null\<close>.
\<close>

record Token =
  token_type :: string
  token_value :: string
  token_hidden :: bool

section \<open>The tokenizer (class \<^verbatim>\<open>#TokenizerClass\<close>)\<close>

record TokenizerClass =
  TokenTypes :: "TokenType list"
  buffer :: string
  index :: nat
  lookaheadBuffer :: "Token option list"
  lookaheadIndex :: nat

text \<open>\<^verbatim>\<open>#isEOF() { return this.#index >= this.#buffer.length; }\<close>\<close>

definition isEOF_t :: "TokenizerClass \<Rightarrow> bool" where
  "isEOF_t tk = (index tk \<ge> length (buffer tk))"

text \<open>\<^verbatim>\<open>!tokenValue\<close>: \<^verbatim>\<open>null\<close> and the empty string are falsy; so is \<^verbatim>\<open>!TokenType.name\<close>.\<close>

fun falsy :: "string option \<Rightarrow> bool" where
  "falsy None = True"
| "falsy (Some s) = (s = [])"

text \<open>
  One round of the \<^verbatim>\<open>for\<close> loop of \<^verbatim>\<open>#readToken\<close> up to the test before
  \<^verbatim>\<open>continue\<close>: the values of \<^verbatim>\<open>tokenValue\<close> and \<^verbatim>\<open>tokenLength\<close> for one token type.
  The branch \<^verbatim>\<open>else throw TypeError('Unexpected Matcher')\<close> has no counterpart: a
  \<open>matcher\<close> is one of the two.
\<close>

definition try_matcher :: "TokenType \<Rightarrow> string \<Rightarrow> error + (string option \<times> nat)" where
  "try_matcher TT INPUT =
     (case matcher TT of
        MatcherObj pattern \<Rightarrow>
          (case match pattern INPUT of
             Inl e \<Rightarrow> Inl e
           | Inr (r, v, n) \<Rightarrow>
               if r \<noteq> RetFalse \<and> r \<noteq> RetNull then Inr (v, n) else Inr (None, 0))
      | RegExpObj re \<Rightarrow>
          (let tokenValue = map_option snd (re INPUT)
           in Inr (tokenValue, (case tokenValue of None \<Rightarrow> 0 | Some v \<Rightarrow> length v))))"

text \<open>
  The \<^verbatim>\<open>for (const TokenType of this.TokenTypes)\<close> loop: the first token type, in
  registration order, that does not \<^verbatim>\<open>continue\<close>, with its value and length; \<open>Inr None\<close>
  when the loop runs off the end, \<open>Inl e\<close> when a matcher throws.
\<close>

fun first_match :: "TokenType list \<Rightarrow> string \<Rightarrow> error + (TokenType \<times> string option \<times> nat) option" where
  "first_match [] INPUT = Inr None"
| "first_match (TT # rest) INPUT =
     (case try_matcher TT INPUT of
        Inl e \<Rightarrow> Inl e
      | Inr (tokenValue, tokenLength) \<Rightarrow>
          if falsy tokenValue \<and> 1 > tokenLength then first_match rest INPUT
          else Inr (Some (TT, tokenValue, tokenLength)))"

text \<open>
  The matcher's result never outgrows its cursor: every character appended by
  \<^verbatim>\<open>readChar\<close> also advances the index. So a match with a value has a positive length,
  and every token type that \<^verbatim>\<open>#readToken\<close> accepts advances the source position.
\<close>

lemma readChar_result_le_index:
  "readChar c m = (out, m') \<Longrightarrow> length (m_result m) \<le> m_index m \<Longrightarrow>
   length (m_result m') \<le> m_index m'"
  by (auto simp: readChar_def split: if_splits)

lemma omitChar_result_le_index:
  "omitChar c m = (out, m') \<Longrightarrow> length (m_result m) \<le> m_index m \<Longrightarrow>
   length (m_result m') \<le> m_index m'"
  by (auto simp: omitChar_def split: if_splits)

lemma run_pattern_result_le_index:
  "run_pattern p m = (out, m') \<Longrightarrow> length (m_result m) \<le> m_index m \<Longrightarrow>
   length (m_result m') \<le> m_index m'"
proof (induction p arbitrary: m)
  case (ReadChar c k)
  obtain o1 m1 where r: "readChar c m = (o1, m1)" by (cases "readChar c m")
  with ReadChar.prems have "run_pattern (k o1) m1 = (out, m')" by simp
  moreover have "length (m_result m1) \<le> m_index m1"
    using readChar_result_le_index[OF r] ReadChar.prems by simp
  ultimately show ?case using ReadChar.IH[OF rangeI] by blast
next
  case (OmitChar c k)
  obtain o1 m1 where r: "omitChar c m = (o1, m1)" by (cases "omitChar c m")
  with OmitChar.prems have "run_pattern (k o1) m1 = (out, m')" by simp
  moreover have "length (m_result m1) \<le> m_index m1"
    using omitChar_result_le_index[OF r] OmitChar.prems by simp
  ultimately show ?case using OmitChar.IH[OF rangeI] by blast
qed auto

lemma match_value_length: "match p input = Inr (r, Some v, n) \<Longrightarrow> 0 < n"
proof -
  assume a: "match p input = Inr (r, Some v, n)"
  obtain out m' where
    rp: "run_pattern p \<lparr>m_buffer = input, m_index = 0, m_result = []\<rparr> = (out, m')"
    by (cases "run_pattern p \<lparr>m_buffer = input, m_index = 0, m_result = []\<rparr>")
  have "length (m_result m') \<le> m_index m'"
    using run_pattern_result_le_index[OF rp] by simp
  moreover from a rp have "m_result m' \<noteq> []" "n = m_index m'"
    by (auto simp: match_def split: sum.splits if_splits)
  ultimately show ?thesis by (cases "m_result m'") auto
qed

lemma try_matcher_length:
  "try_matcher TT INPUT = Inr (v, n) \<Longrightarrow> \<not> (falsy v \<and> 1 > n) \<Longrightarrow> 0 < n"
  by (cases v)
     (auto simp: try_matcher_def Let_def
           split: matcher.splits sum.splits if_splits option.splits dest: match_value_length)

lemma first_match_length: "first_match TTs INPUT = Inr (Some (TT, v, n)) \<Longrightarrow> 0 < n"
  by (induction TTs) (auto split: sum.splits if_splits dest: try_matcher_length)

text \<open>
  \<^verbatim>\<open>#readToken()\<close>. \<^verbatim>\<open>INPUT\<close> is the rest of the source from \<^verbatim>\<open>#index\<close>. The token type
  chosen by the loop advances \<^verbatim>\<open>#index\<close> by its length; a type without a name, or a
  match without a value, gives no token: \<^verbatim>\<open>null\<close> (here \<open>None\<close>) at the end of the
  source, the next token otherwise. When no type is chosen the call throws. The state
  returned with an error is the state at the \<^verbatim>\<open>throw\<close>. In the last branch the name
  and the value are not falsy, so \<open>the\<close> reads a \<open>Some\<close>.
\<close>

function readToken :: "TokenizerClass \<Rightarrow> (error + Token option) \<times> TokenizerClass" where
  "readToken tk =
     (let INPUT = drop (index tk) (buffer tk) in
      case first_match (TokenTypes tk) INPUT of
        Inl e \<Rightarrow> (Inl e, tk)
      | Inr None \<Rightarrow> (Inl (SyntaxError_UndefinedToken INPUT), tk)
      | Inr (Some (TT, tokenValue, tokenLength)) \<Rightarrow>
          (let tk' = tk\<lparr>index := index tk + tokenLength\<rparr> in
           if falsy (name TT) \<or> falsy tokenValue then
             (if isEOF_t tk' then (Inr None, tk') else readToken tk')
           else
             (Inr (Some \<lparr>token_type = the (name TT), token_value = the tokenValue,
                         token_hidden = hidden TT\<rparr>), tk')))"
  by pat_completeness auto
termination
proof (relation "measure (\<lambda>tk. length (buffer tk) - index tk)", goal_cases)
  case 1
  show ?case by simp
next
  case (2 tk INPUT x2 x TT y tokenValue tokenLength tk')
  from 2 have "first_match (TokenTypes tk) INPUT = Inr (Some (TT, tokenValue, tokenLength))"
    by simp
  then have "0 < tokenLength" by (rule first_match_length)
  with 2 show ?case by (simp add: isEOF_t_def)
qed

declare readToken.simps [simp del]

text \<open>A call of \<^verbatim>\<open>#readToken\<close> that returns has moved the source position forward.\<close>

lemma readToken_advances:
  "readToken tk = (Inr T, tk') \<Longrightarrow>
   index tk < index tk' \<and> buffer tk' = buffer tk \<and> TokenTypes tk' = TokenTypes tk \<and>
   lookaheadBuffer tk' = lookaheadBuffer tk \<and> lookaheadIndex tk' = lookaheadIndex tk"
proof (induction tk arbitrary: T tk' rule: readToken.induct)
  case (1 tk)
  let ?INPUT = "drop (index tk) (buffer tk)"
  from "1.prems" obtain TT tokenValue tokenLength where
    fm: "first_match (TokenTypes tk) ?INPUT = Inr (Some (TT, tokenValue, tokenLength))"
    by (subst (asm) readToken.simps) (auto simp: Let_def split: sum.splits option.splits)
  have len: "0 < tokenLength" using fm by (rule first_match_length)
  let ?tk1 = "tk\<lparr>index := index tk + tokenLength\<rparr>"
  show ?case
  proof (cases "(falsy (name TT) \<or> falsy tokenValue) \<and> \<not> isEOF_t ?tk1")
    case True
    with "1.prems" fm have rec: "readToken ?tk1 = (Inr T, tk')"
      by (subst (asm) readToken.simps) (simp add: Let_def)
    have "index ?tk1 < index tk' \<and> buffer tk' = buffer ?tk1 \<and>
          TokenTypes tk' = TokenTypes ?tk1 \<and> lookaheadBuffer tk' = lookaheadBuffer ?tk1 \<and>
          lookaheadIndex tk' = lookaheadIndex ?tk1"
      using "1.IH"[OF refl fm refl refl refl refl _ _ rec] True by blast
    then show ?thesis by simp
  next
    case False
    with "1.prems" fm have "tk' = ?tk1"
      by (subst (asm) readToken.simps) (auto simp: Let_def split: if_splits)
    with len show ?thesis by simp
  qed
qed

text \<open>
  \<^verbatim>\<open>while (!this.#isEOF()) this.#lookaheadBuffer.push(this.#readToken())\<close>: the loop of
  \<^verbatim>\<open>initialize\<close>. What \<^verbatim>\<open>#readToken\<close> returns is pushed as it is, \<^verbatim>\<open>null\<close> included.
\<close>

function fill_lookahead :: "TokenizerClass \<Rightarrow> (error + unit) \<times> TokenizerClass" where
  "fill_lookahead tk =
     (if \<not> isEOF_t tk then
        (case readToken tk of
           (Inl e, tk') \<Rightarrow> (Inl e, tk')
         | (Inr Token, tk') \<Rightarrow>
             fill_lookahead (tk'\<lparr>lookaheadBuffer := lookaheadBuffer tk' @ [Token]\<rparr>))
      else (Inr (), tk))"
  by pat_completeness auto
termination
proof (relation "measure (\<lambda>tk. length (buffer tk) - index tk)", goal_cases)
  case 1
  show ?case by simp
next
  case (2 tk x tk' Token)
  then have "readToken tk = (Inr Token, tk')" by simp
  from readToken_advances[OF this] 2 show ?case by (auto simp: isEOF_t_def)
qed

declare fill_lookahead.simps [simp del]

text \<open>\<^verbatim>\<open>initialize(source)\<close>\<close>

definition initialize :: "string \<Rightarrow> TokenizerClass \<Rightarrow> (error + unit) \<times> TokenizerClass" where
  "initialize source tk =
     fill_lookahead (tk\<lparr>buffer := source, index := 0, lookaheadBuffer := [], lookaheadIndex := 0\<rparr>)"

text \<open>
  \<^verbatim>\<open>peekToken(offset = 0)\<close>:
  \<^verbatim>\<open>this.#lookaheadBuffer[this.#lookaheadIndex + offset] ?? null\<close>. An index outside the
  array gives \<^verbatim>\<open>undefined\<close>, which \<^verbatim>\<open>??\<close> turns into \<^verbatim>\<open>null\<close>; a \<^verbatim>\<open>null\<close> entry is
  returned as it is.
\<close>

definition peekToken :: "TokenizerClass \<Rightarrow> int \<Rightarrow> Token option" where
  "peekToken tk offset =
     (case js_at (lookaheadBuffer tk) (int (lookaheadIndex tk) + offset) of
        None \<Rightarrow> None
      | Some Token \<Rightarrow> Token)"

text \<open>\<^verbatim>\<open>nextToken()\<close>\<close>

definition nextToken :: "TokenizerClass \<Rightarrow> Token option \<times> TokenizerClass" where
  "nextToken tk =
     (if lookaheadIndex tk \<ge> length (lookaheadBuffer tk) then (None, tk)
      else (lookaheadBuffer tk ! lookaheadIndex tk,
            tk\<lparr>lookaheadIndex := lookaheadIndex tk + 1\<rparr>))"

section \<open>The parser facade (class \<^verbatim>\<open>Anatomize\<close>)\<close>

record Anatomize =
  Tokenizer :: TokenizerClass
  parsing :: bool

text \<open>
  A new facade: \<^verbatim>\<open>#Tokenizer = new Anatomize.#TokenizerClass()\<close> with
  \<^verbatim>\<open>TokenTypes = []\<close>, and \<^verbatim>\<open>#parsing = false\<close>. The tokenizer's other fields are
  unset until \<^verbatim>\<open>initialize\<close>, and nothing reads them before; they are empty here. The
  constructor's test \<^verbatim>\<open>typeof main !== 'function'\<close> has no counterpart: the main
  function is a function by its type, and is passed to \<open>parse\<close>.
\<close>

definition new_Anatomize :: Anatomize where
  "new_Anatomize =
     \<lparr>Tokenizer = \<lparr>TokenTypes = [], buffer = [], index = 0,
                    lookaheadBuffer = [], lookaheadIndex = 0\<rparr>,
      parsing = False\<rparr>"

text \<open>
  The main function \<^verbatim>\<open>#main\<close> is user code: it is called with no argument, works on
  the facade through its methods, and returns a result or throws.
\<close>

type_synonym 'r main = "Anatomize \<Rightarrow> (error + 'r) \<times> Anatomize"

text \<open>\<^verbatim>\<open>#errorIfParsing()\<close> and \<^verbatim>\<open>#errorIfNotParsing()\<close>: the error thrown, if any.\<close>

definition errorIfParsing :: "Anatomize \<Rightarrow> error option" where
  "errorIfParsing a = (if parsing a then Some SyntaxError_WhilstParsing else None)"

definition errorIfNotParsing :: "Anatomize \<Rightarrow> error option" where
  "errorIfNotParsing a = (if \<not> parsing a then Some SyntaxError_NotParsing else None)"

text \<open>
  \<^verbatim>\<open>parse(source)\<close>: the flag is set, the tokenizer initialised, and only then does the
  \<^verbatim>\<open>try\<close> block begin, whose \<^verbatim>\<open>finally\<close> clears the flag.
\<close>

definition parse :: "'r main \<Rightarrow> string \<Rightarrow> Anatomize \<Rightarrow> (error + 'r) \<times> Anatomize" where
  "parse main source a =
     (case errorIfParsing a of
        Some e \<Rightarrow> (Inl e, a)
      | None \<Rightarrow>
          (let a1 = a\<lparr>parsing := True\<rparr> in
           case initialize source (Tokenizer a1) of
             (Inl e, tk) \<Rightarrow> (Inl e, a1\<lparr>Tokenizer := tk\<rparr>)
           | (Inr u, tk) \<Rightarrow>
               (case main (a1\<lparr>Tokenizer := tk\<rparr>) of
                  (out, a2) \<Rightarrow> (out, a2\<lparr>parsing := False\<rparr>))))"

text \<open>
  The \<^verbatim>\<open>matcher\<close> argument of a registration: a function, a RegExp, or a value that is
  neither.
\<close>

datatype matcher_arg = FunctionArg routine | RegExpArg RegExp | OtherArg

text \<open>\<^verbatim>\<open>#addTokenType(name, matcher, hidden)\<close>\<close>

definition addTokenType ::
  "string option \<Rightarrow> matcher_arg \<Rightarrow> bool \<Rightarrow> Anatomize \<Rightarrow> (error + unit) \<times> Anatomize" where
  "addTokenType nm m h a =
     (case errorIfParsing a of
        Some e \<Rightarrow> (Inl e, a)
      | None \<Rightarrow>
          (case m of
             OtherArg \<Rightarrow> (Inl TypeError_TypeOfMatcher, a)
           | FunctionArg f \<Rightarrow>
               (Inr (), a\<lparr>Tokenizer := (Tokenizer a)\<lparr>TokenTypes := TokenTypes (Tokenizer a) @
                  [\<lparr>name = nm, matcher = MatcherObj f, hidden = h\<rparr>]\<rparr>\<rparr>)
           | RegExpArg re \<Rightarrow>
               (Inr (), a\<lparr>Tokenizer := (Tokenizer a)\<lparr>TokenTypes := TokenTypes (Tokenizer a) @
                  [\<lparr>name = nm, matcher = RegExpObj re, hidden = h\<rparr>]\<rparr>\<rparr>)))"

definition registerToken ::
  "string option \<Rightarrow> matcher_arg \<Rightarrow> Anatomize \<Rightarrow> (error + unit) \<times> Anatomize" where
  "registerToken nm m a = addTokenType nm m False a"

definition registerHiddenToken ::
  "string option \<Rightarrow> matcher_arg \<Rightarrow> Anatomize \<Rightarrow> (error + unit) \<times> Anatomize" where
  "registerHiddenToken nm m a = addTokenType nm m True a"

text \<open>\<^verbatim>\<open>Token?.hidden\<close> as a condition, and \<^verbatim>\<open>Token?.type\<close> (\<open>None\<close> is \<^verbatim>\<open>undefined\<close>).\<close>

definition is_hidden :: "Token option \<Rightarrow> bool" where
  "is_hidden Token = (case Token of None \<Rightarrow> False | Some t \<Rightarrow> token_hidden t)"

definition type_of :: "Token option \<Rightarrow> string option" where
  "type_of Token = map_option token_type Token"

text \<open>
  The loop of \<^verbatim>\<open>peek\<close>:
  \<^verbatim>\<open>do { Token = this.#Tokenizer.peekToken(offset++); } while (Token?.hidden)\<close>.
\<close>

function peek_loop :: "TokenizerClass \<Rightarrow> int \<Rightarrow> Token option" where
  "peek_loop tk offset =
     (let Token = peekToken tk offset in
      if is_hidden Token then peek_loop tk (offset + 1) else Token)"
  by pat_completeness auto
termination
proof (relation "measure (\<lambda>(tk, offset).
         nat (int (length (lookaheadBuffer tk)) - (int (lookaheadIndex tk) + offset)))",
       goal_cases)
  case 1
  show ?case by simp
next
  case 2
  then show ?case
    by (auto simp: is_hidden_def peekToken_def js_at_def split: option.splits if_splits)
qed

declare peek_loop.simps [simp del]

text \<open>\<^verbatim>\<open>peek(offset = 0)\<close>\<close>

definition peek :: "int \<Rightarrow> Anatomize \<Rightarrow> (error + Token option) \<times> Anatomize" where
  "peek offset a =
     (case errorIfNotParsing a of
        Some e \<Rightarrow> (Inl e, a)
      | None \<Rightarrow>
          (let Token = peek_loop (Tokenizer a) offset in
           (Inr (if is_hidden Token then None else Token), a)))"

text \<open>\<^verbatim>\<open>isEOF() { this.#errorIfNotParsing(); return !this.peek(); }\<close>\<close>

definition isEOF :: "Anatomize \<Rightarrow> (error + bool) \<times> Anatomize" where
  "isEOF a =
     (case errorIfNotParsing a of
        Some e \<Rightarrow> (Inl e, a)
      | None \<Rightarrow>
          (case peek 0 a of
             (Inl e, a') \<Rightarrow> (Inl e, a')
           | (Inr Token, a') \<Rightarrow> (Inr (Token = None), a')))"

text \<open>\<^verbatim>\<open>isPeekType(tokenType, offset = 0) { return this.peek(offset)?.type === tokenType; }\<close>\<close>

definition isPeekType :: "string \<Rightarrow> int \<Rightarrow> Anatomize \<Rightarrow> (error + bool) \<times> Anatomize" where
  "isPeekType tokenType offset a =
     (case peek offset a of
        (Inl e, a') \<Rightarrow> (Inl e, a')
      | (Inr Token, a') \<Rightarrow> (Inr (type_of Token = Some tokenType), a'))"

text \<open>
  The loop of \<^verbatim>\<open>read\<close>:
  \<^verbatim>\<open>do { Token = this.#Tokenizer.nextToken(); } while (Token?.hidden && Token?.type !== tokenType)\<close>.
\<close>

function read_loop :: "string \<Rightarrow> TokenizerClass \<Rightarrow> Token option \<times> TokenizerClass" where
  "read_loop tokenType tk =
     (case nextToken tk of
        (Token, tk') \<Rightarrow>
          if is_hidden Token \<and> type_of Token \<noteq> Some tokenType then read_loop tokenType tk'
          else (Token, tk'))"
  by pat_completeness auto
termination
proof (relation "measure (\<lambda>(tokenType, tk). length (lookaheadBuffer tk) - lookaheadIndex tk)",
       goal_cases)
  case 1
  show ?case by simp
next
  case 2
  then show ?case
    by (auto simp: is_hidden_def nextToken_def split: option.splits if_splits)
qed

declare read_loop.simps [simp del]

text \<open>\<^verbatim>\<open>read(tokenType)\<close>. The state returned with an error is the state at the \<^verbatim>\<open>throw\<close>.\<close>

definition read :: "string \<Rightarrow> Anatomize \<Rightarrow> (error + Token) \<times> Anatomize" where
  "read tokenType a =
     (case errorIfNotParsing a of
        Some e \<Rightarrow> (Inl e, a)
      | None \<Rightarrow>
          (case read_loop tokenType (Tokenizer a) of
             (Token, tk') \<Rightarrow>
               (let a' = a\<lparr>Tokenizer := tk'\<rparr> in
                case Token of
                  None \<Rightarrow> (Inl SyntaxError_EndOfInput, a')
                | Some t \<Rightarrow>
                    if token_type t \<noteq> tokenType
                    then (Inl (SyntaxError_UnexpectedToken tokenType (token_type t)), a')
                    else (Inr t, a'))))"

section \<open>Statements used by the claims\<close>

text \<open>
  The entry that a walk from buffer position \<open>p\<close> past consecutive hidden tokens ends on:
  the first entry at or after \<open>p\<close> that is not a hidden token, or nothing when the walk
  leaves the buffer (or starts before it).
\<close>

definition entry_after_hidden :: "Token option list \<Rightarrow> int \<Rightarrow> Token option" where
  "entry_after_hidden buf p =
     (if p < 0 then None
      else (case dropWhile is_hidden (drop (nat p) buf) of [] \<Rightarrow> None | e # rest \<Rightarrow> e))"

text \<open>
  The entries that \<^verbatim>\<open>read(T)\<close> skips: hidden tokens of another type than \<open>T\<close>; and how
  many of them stand at the read cursor.
\<close>

definition skipped_by_read :: "string \<Rightarrow> Token option \<Rightarrow> bool" where
  "skipped_by_read T e = (is_hidden e \<and> type_of e \<noteq> Some T)"

definition skip_count :: "string \<Rightarrow> TokenizerClass \<Rightarrow> nat" where
  "skip_count T tk =
     length (takeWhile (skipped_by_read T) (drop (lookaheadIndex tk) (lookaheadBuffer tk)))"

text \<open>
  The facade with its read cursor moved forward by \<open>n\<close> entries.
\<close>

definition advanced :: "nat \<Rightarrow> Anatomize \<Rightarrow> Anatomize" where
  "advanced n a =
     a\<lparr>Tokenizer := (Tokenizer a)\<lparr>lookaheadIndex := lookaheadIndex (Tokenizer a) + n\<rparr>\<rparr>"

text \<open>
  The state in which \<^verbatim>\<open>parse(source)\<close> calls the main function, and in which it throws
  when the tokenizer does: the flag set, the tokenizer as \<^verbatim>\<open>initialize\<close> left it.
\<close>

definition whilst_parsing :: "string \<Rightarrow> Anatomize \<Rightarrow> Anatomize" where
  "whilst_parsing source a =
     a\<lparr>parsing := True, Tokenizer := snd (initialize source (Tokenizer a))\<rparr>"

text \<open>
  A token type reports a match on \<open>INPUT\<close> when its round of the loop of
  \<^verbatim>\<open>#readToken\<close> does not \<^verbatim>\<open>continue\<close>; it reports no match when it does. (A matcher
  that throws does neither.)
\<close>

definition reports_match :: "TokenType \<Rightarrow> string \<Rightarrow> string option \<Rightarrow> nat \<Rightarrow> bool" where
  "reports_match TT INPUT v n =
     (try_matcher TT INPUT = Inr (v, n) \<and> \<not> (falsy v \<and> 1 > n))"

definition reports_no_match :: "TokenType \<Rightarrow> string \<Rightarrow> bool" where
  "reports_no_match TT INPUT =
     (case try_matcher TT INPUT of Inl e \<Rightarrow> False | Inr (v, n) \<Rightarrow> falsy v \<and> 1 > n)"

text \<open>
  The source is consumed by discards from position \<open>i\<close> to its end: \<open>i\<close> is at the end,
  or the match chosen at \<open>i\<close> is discarded (its type has no name, or it has no value)
  and the same holds after it.
\<close>

inductive consumed_by_discards :: "TokenType list \<Rightarrow> string \<Rightarrow> nat \<Rightarrow> bool"
  for TTs :: "TokenType list" and source :: string where
  at_end: "length source \<le> i \<Longrightarrow> consumed_by_discards TTs source i"
| discard:
    "first_match TTs (drop i source) = Inr (Some (TT, v, n)) \<Longrightarrow>
     falsy (name TT) \<or> falsy v \<Longrightarrow>
     consumed_by_discards TTs source (i + n) \<Longrightarrow>
     consumed_by_discards TTs source i"

text \<open>
  A RegExp is anchored when it matches at the start of its input only (as a pattern that
  begins with \<^verbatim>\<open>^\<close> does, multiline flag aside); the text of a match is the text of
  the input at its index. A registry of anchored patterns holds nothing else.
\<close>

definition anchored :: "RegExp \<Rightarrow> bool" where
  "anchored re = (\<forall>input i m. re input = Some (i, m) \<longrightarrow> i = 0)"

definition matches_text :: "RegExp \<Rightarrow> bool" where
  "matches_text re =
     (\<forall>input i m. re input = Some (i, m) \<longrightarrow> m = take (length m) (drop i input))"

definition anchored_patterns :: "TokenType list \<Rightarrow> bool" where
  "anchored_patterns TTs =
     (\<forall>TT \<in> set TTs. \<exists>re. matcher TT = RegExpObj re \<and> anchored re \<and> matches_text re)"

text \<open>
  Every token of a buffer has a value that is not empty.
\<close>

definition all_values_nonempty :: "Token option list \<Rightarrow> bool" where
  "all_values_nonempty buf = (\<forall>t. Some t \<in> set buf \<longrightarrow> token_value t \<noteq> [])"

section \<open>Example patterns, registries and states\<close>

text \<open>
  RegExps as functions of the input: \<^verbatim>\<open>/^\d+/\<close> and \<^verbatim>\<open>/^\n+/\<close> of the README,
  \<^verbatim>\<open>/^\s+/\<close> (ASCII white space), and \<^verbatim>\<open>/\d+/\<close>, the first of them without its
  anchor.
\<close>

definition is_digit :: "char \<Rightarrow> bool" where
  "is_digit c = (c \<in> set ''0123456789'')"

definition is_space :: "char \<Rightarrow> bool" where
  "is_space c = (c \<in> set [CHR '' '', CHR 0x09, CHR 0x0A, CHR 0x0B, CHR 0x0C, CHR 0x0D])"

definition re_digits :: RegExp where
  "re_digits input =
     (let m = takeWhile is_digit input in if m = [] then None else Some (0, m))"

definition re_space :: RegExp where
  "re_space input =
     (let m = takeWhile is_space input in if m = [] then None else Some (0, m))"

definition re_newlines :: RegExp where
  "re_newlines input =
     (let m = takeWhile (\<lambda>c. c = CHR 0x0A) input in if m = [] then None else Some (0, m))"

definition re_digits_unanchored :: RegExp where
  "re_digits_unanchored input =
     (let rest = dropWhile (\<lambda>c. \<not> is_digit c) input; m = takeWhile is_digit rest
      in if m = [] then None else Some (length input - length rest, m))"

text \<open>
  Token types: \<^verbatim>\<open>('NUMBER', /^\d+/)\<close>, \<^verbatim>\<open>(null, /^\s+/)\<close> and
  \<^verbatim>\<open>('DIGITS', /\d+/)\<close>, none of them hidden.
\<close>

definition number_type :: TokenType where
  "number_type = \<lparr>name = Some ''NUMBER'', matcher = RegExpObj re_digits, hidden = False\<rparr>"

definition space_type :: TokenType where
  "space_type = \<lparr>name = None, matcher = RegExpObj re_space, hidden = False\<rparr>"

definition digits_type :: TokenType where
  "digits_type = \<lparr>name = Some ''DIGITS'', matcher = RegExpObj re_digits_unanchored, hidden = False\<rparr>"

text \<open>
  A facade after \<^verbatim>\<open>registerToken('NUMBER', /^\d+/)\<close> and
  \<^verbatim>\<open>registerHiddenToken(';', /^\n+/)\<close>, the tokens it produces, and a facade after
  \<^verbatim>\<open>registerToken(null, /^\s+/)\<close>.
\<close>

definition number_parser :: Anatomize where
  "number_parser =
     snd (registerHiddenToken (Some '';'') (RegExpArg re_newlines)
       (snd (registerToken (Some ''NUMBER'') (RegExpArg re_digits) new_Anatomize)))"

definition newline_token :: Token where
  "newline_token = \<lparr>token_type = '';'', token_value = [CHR 0x0A], token_hidden = True\<rparr>"

definition number_token :: "string \<Rightarrow> Token" where
  "number_token v = \<lparr>token_type = ''NUMBER'', token_value = v, token_hidden = False\<rparr>"

definition space_parser :: Anatomize where
  "space_parser = snd (registerToken None (RegExpArg re_space) new_Anatomize)"

text \<open>
  A matcher routine, \<^verbatim>\<open>(read) => { read('='); read('='); }\<close>, which lets the
  RangeError of \<^verbatim>\<open>readChar\<close> propagate, and a facade after
  \<^verbatim>\<open>registerToken('==', ...)\<close> with it.
\<close>

definition equals_routine :: routine where
  "equals_routine =
     ReadChar (CString ''='') (\<lambda>r. case r of
         Inl e \<Rightarrow> Throw e
       | Inr c \<Rightarrow> ReadChar (CString ''='') (\<lambda>r. case r of
             Inl e \<Rightarrow> Throw e
           | Inr c \<Rightarrow> Return RetOther))"

definition equals_parser :: Anatomize where
  "equals_parser = snd (registerToken (Some ''=='') (FunctionArg equals_routine) new_Anatomize)"

section \<open>Lemmas on the two walks\<close>

lemma peek_loop_walk:
  "peek_loop tk offset =
   entry_after_hidden (lookaheadBuffer tk) (int (lookaheadIndex tk) + offset)"
proof (induction tk offset rule: peek_loop.induct)
  case (1 tk offset)
  let ?buf = "lookaheadBuffer tk"
  let ?p = "int (lookaheadIndex tk) + offset"
  show ?case
  proof (cases "is_hidden (peekToken tk offset)")
    case True
    then have range: "0 \<le> ?p" "nat ?p < length ?buf" and hid: "is_hidden (?buf ! nat ?p)"
      by (auto simp: peekToken_def js_at_def is_hidden_def split: if_splits option.splits)
    have "drop (nat ?p) ?buf = ?buf ! nat ?p # drop (Suc (nat ?p)) ?buf"
      using range by (simp add: Cons_nth_drop_Suc)
    moreover have "Suc (nat ?p) = nat (?p + 1)" using range by simp
    ultimately have "entry_after_hidden ?buf ?p = entry_after_hidden ?buf (?p + 1)"
      using hid range by (simp add: entry_after_hidden_def)
    moreover have "peek_loop tk offset = peek_loop tk (offset + 1)"
      using True by (subst peek_loop.simps) simp
    ultimately show ?thesis using "1.IH"[OF refl True] by (simp add: add.assoc)
  next
    case False
    then have pl: "peek_loop tk offset = peekToken tk offset"
      by (subst peek_loop.simps) simp
    show ?thesis
    proof (cases "0 \<le> ?p \<and> nat ?p < length ?buf")
      case True
      then have "drop (nat ?p) ?buf = ?buf ! nat ?p # drop (Suc (nat ?p)) ?buf"
        by (simp add: Cons_nth_drop_Suc)
      moreover have "peekToken tk offset = ?buf ! nat ?p"
        using True by (auto simp: peekToken_def js_at_def split: option.splits)
      ultimately show ?thesis using False True pl by (simp add: entry_after_hidden_def)
    next
      case False
      then have "peekToken tk offset = None"
        by (auto simp: peekToken_def js_at_def)
      moreover have "entry_after_hidden ?buf ?p = None"
        using False by (auto simp: entry_after_hidden_def)
      ultimately show ?thesis using pl by simp
    qed
  qed
qed

lemma entry_after_hidden_visible: "\<not> is_hidden (entry_after_hidden buf p)"
proof (cases "p < 0 \<or> dropWhile is_hidden (drop (nat p) buf) = []")
  case True
  then have "entry_after_hidden buf p = None"
    by (cases "p < 0") (simp_all add: entry_after_hidden_def del: dropWhile_eq_Nil_conv)
  then show ?thesis by (simp add: is_hidden_def)
next
  case False
  then obtain e rest where d: "dropWhile is_hidden (drop (nat p) buf) = e # rest"
    by (cases "dropWhile is_hidden (drop (nat p) buf)") auto
  then have "\<not> is_hidden e" using hd_dropWhile[of is_hidden "drop (nat p) buf"] by simp
  with d False show ?thesis by (simp add: entry_after_hidden_def)
qed

lemma peek_walk:
  "parsing a \<Longrightarrow>
   peek offset a =
     (Inr (entry_after_hidden (lookaheadBuffer (Tokenizer a))
             (int (lookaheadIndex (Tokenizer a)) + offset)), a)"
  by (simp add: peek_def errorIfNotParsing_def Let_def peek_loop_walk entry_after_hidden_visible)

lemma entry_after_hidden_step:
  "0 \<le> p \<Longrightarrow> nat p < length buf \<Longrightarrow> is_hidden (buf ! nat p) \<Longrightarrow>
   entry_after_hidden buf p = entry_after_hidden buf (p + 1)"
proof -
  assume a: "0 \<le> p" "nat p < length buf" "is_hidden (buf ! nat p)"
  have "drop (nat p) buf = buf ! nat p # drop (Suc (nat p)) buf"
    using a by (simp add: Cons_nth_drop_Suc)
  moreover have "Suc (nat p) = nat (p + 1)" using a by simp
  ultimately show ?thesis using a by (simp add: entry_after_hidden_def)
qed

lemma entry_after_hidden_in_buffer:
  "entry_after_hidden buf p = Some t \<Longrightarrow> Some t \<in> set buf"
proof -
  assume a: "entry_after_hidden buf p = Some t"
  then have np: "\<not> p < 0" by (auto simp: entry_after_hidden_def split: if_splits)
  with a obtain rest where "dropWhile is_hidden (drop (nat p) buf) = Some t # rest"
    by (auto simp: entry_after_hidden_def split: list.splits)
  then have "Some t \<in> set (dropWhile is_hidden (drop (nat p) buf))" by simp
  then show ?thesis by (meson in_set_dropD set_dropWhileD)
qed

lemma entry_after_hidden_nothing:
  "buf = [] \<or> buf = [None] \<Longrightarrow> entry_after_hidden buf p = None"
  by (cases "nat p") (auto simp: entry_after_hidden_def is_hidden_def)

lemma peek_in_buffer:
  "fst (peek offset a) = Inr (Some t) \<Longrightarrow> Some t \<in> set (lookaheadBuffer (Tokenizer a))"
proof (cases "parsing a")
  case True
  assume "fst (peek offset a) = Inr (Some t)"
  then show ?thesis using entry_after_hidden_in_buffer by (simp add: peek_walk[OF True])
next
  case False
  assume "fst (peek offset a) = Inr (Some t)"
  with False show ?thesis by (simp add: peek_def errorIfNotParsing_def)
qed

lemma read_loop_walk:
  "read_loop T tk =
     (if lookaheadIndex tk + skip_count T tk < length (lookaheadBuffer tk)
      then (lookaheadBuffer tk ! (lookaheadIndex tk + skip_count T tk),
            tk\<lparr>lookaheadIndex := lookaheadIndex tk + skip_count T tk + 1\<rparr>)
      else (None, tk\<lparr>lookaheadIndex := lookaheadIndex tk + skip_count T tk\<rparr>))"
proof (induction T tk rule: read_loop.induct)
  case (1 T tk)
  let ?buf = "lookaheadBuffer tk"
  let ?i = "lookaheadIndex tk"
  show ?case
  proof (cases "?i < length ?buf")
    case False
    then have "nextToken tk = (None, tk)" by (simp add: nextToken_def)
    then have "read_loop T tk = (None, tk)"
      by (subst read_loop.simps) (simp add: is_hidden_def)
    moreover have "skip_count T tk = 0" using False by (simp add: skip_count_def)
    ultimately show ?thesis using False by simp
  next
    case True
    let ?tk' = "tk\<lparr>lookaheadIndex := ?i + 1\<rparr>"
    have nt: "nextToken tk = (?buf ! ?i, ?tk')" using True by (simp add: nextToken_def)
    have dr: "drop ?i ?buf = ?buf ! ?i # drop (Suc ?i) ?buf"
      using True by (simp add: Cons_nth_drop_Suc)
    show ?thesis
    proof (cases "skipped_by_read T (?buf ! ?i)")
      case False
      then have "read_loop T tk = (?buf ! ?i, ?tk')"
        using nt by (subst read_loop.simps) (auto simp: skipped_by_read_def)
      moreover have "skip_count T tk = 0" using False dr by (simp add: skip_count_def)
      ultimately show ?thesis using True by simp
    next
      case skip: True
      then have "read_loop T tk = read_loop T ?tk'"
        using nt by (subst read_loop.simps) (auto simp: skipped_by_read_def)
      moreover have "skip_count T tk = Suc (skip_count T ?tk')"
        using skip dr by (simp add: skip_count_def)
      moreover have hid: "is_hidden (?buf ! ?i) \<and> type_of (?buf ! ?i) \<noteq> Some T"
        using skip by (simp add: skipped_by_read_def)
      ultimately show ?thesis using "1.IH"[OF nt[symmetric] hid] by simp
    qed
  qed
qed

lemma read_walk:
  "parsing a \<Longrightarrow>
   read T a =
     (if lookaheadIndex (Tokenizer a) + skip_count T (Tokenizer a)
           < length (lookaheadBuffer (Tokenizer a))
      then (case lookaheadBuffer (Tokenizer a) !
                   (lookaheadIndex (Tokenizer a) + skip_count T (Tokenizer a)) of
              None \<Rightarrow> Inl SyntaxError_EndOfInput
            | Some t \<Rightarrow>
                if token_type t \<noteq> T then Inl (SyntaxError_UnexpectedToken T (token_type t))
                else Inr t,
            advanced (skip_count T (Tokenizer a) + 1) a)
      else (Inl SyntaxError_EndOfInput, advanced (skip_count T (Tokenizer a)) a))"
  by (simp add: read_def errorIfNotParsing_def read_loop_walk advanced_def Let_def
      split: option.splits)

lemma skip_count_0:
  "lookaheadIndex tk < length (lookaheadBuffer tk) \<Longrightarrow>
   \<not> skipped_by_read T (lookaheadBuffer tk ! lookaheadIndex tk) \<Longrightarrow> skip_count T tk = 0"
  by (simp add: skip_count_def Cons_nth_drop_Suc[symmetric])

lemma skip_count_Suc:
  "lookaheadIndex tk < length (lookaheadBuffer tk) \<Longrightarrow>
   skipped_by_read T (lookaheadBuffer tk ! lookaheadIndex tk) \<Longrightarrow>
   skip_count T tk = Suc (skip_count T (tk\<lparr>lookaheadIndex := lookaheadIndex tk + 1\<rparr>))"
  by (simp add: skip_count_def Cons_nth_drop_Suc[symmetric])

lemma skip_count_skipped:
  "j < skip_count T tk \<Longrightarrow>
   skipped_by_read T (lookaheadBuffer tk ! (lookaheadIndex tk + j))"
proof -
  assume j: "j < skip_count T tk"
  let ?rest = "drop (lookaheadIndex tk) (lookaheadBuffer tk)"
  have "takeWhile (skipped_by_read T) ?rest ! j = ?rest ! j"
    using j by (simp add: skip_count_def takeWhile_nth)
  moreover have "skipped_by_read T (takeWhile (skipped_by_read T) ?rest ! j)"
    using j by (metis nth_mem set_takeWhileD skip_count_def)
  moreover have "lookaheadIndex tk + j < length (lookaheadBuffer tk)"
    using j length_takeWhile_le[of "skipped_by_read T" ?rest] by (simp add: skip_count_def)
  ultimately show ?thesis by simp
qed

lemma read_in_buffer:
  "fst (read T a) = Inr t \<Longrightarrow> Some t \<in> set (lookaheadBuffer (Tokenizer a))"
proof (cases "parsing a")
  case True
  assume "fst (read T a) = Inr t"
  then show ?thesis
    unfolding read_walk[OF True] by (auto split: if_splits option.splits) (metis nth_mem)
next
  case False
  assume "fst (read T a) = Inr t"
  with False show ?thesis by (simp add: read_def errorIfNotParsing_def)
qed

section \<open>Lemmas on the tokenizer\<close>

lemma readToken_frame:
  "readToken tk = (out, tk') \<Longrightarrow>
   buffer tk' = buffer tk \<and> TokenTypes tk' = TokenTypes tk \<and>
   lookaheadBuffer tk' = lookaheadBuffer tk \<and> lookaheadIndex tk' = lookaheadIndex tk \<and>
   index tk \<le> index tk'"
proof (induction tk arbitrary: out tk' rule: readToken.induct)
  case (1 tk)
  let ?INPUT = "drop (index tk) (buffer tk)"
  show ?case
  proof (cases "first_match (TokenTypes tk) ?INPUT")
    case (Inl e)
    with "1.prems" show ?thesis by (subst (asm) readToken.simps) (simp add: Let_def)
  next
    case (Inr r)
    show ?thesis
    proof (cases r)
      case None
      with Inr "1.prems" show ?thesis by (subst (asm) readToken.simps) (simp add: Let_def)
    next
      case (Some c)
      obtain TT tokenValue tokenLength where c: "c = (TT, tokenValue, tokenLength)"
        by (cases c)
      note fm = Inr[unfolded Some c]
      let ?tk1 = "tk\<lparr>index := index tk + tokenLength\<rparr>"
      show ?thesis
      proof (cases "(falsy (name TT) \<or> falsy tokenValue) \<and> \<not> isEOF_t ?tk1")
        case True
        with "1.prems" fm have rec: "readToken ?tk1 = (out, tk')"
          by (subst (asm) readToken.simps) (simp add: Let_def)
        have "buffer tk' = buffer ?tk1 \<and> TokenTypes tk' = TokenTypes ?tk1 \<and>
              lookaheadBuffer tk' = lookaheadBuffer ?tk1 \<and>
              lookaheadIndex tk' = lookaheadIndex ?tk1 \<and> index ?tk1 \<le> index tk'"
          using "1.IH"[OF refl fm refl refl refl refl _ _ rec] True by blast
        then show ?thesis by simp
      next
        case False
        with "1.prems" fm have "tk' = ?tk1"
          by (subst (asm) readToken.simps) (auto simp: Let_def split: if_splits)
        then show ?thesis by simp
      qed
    qed
  qed
qed

lemma readToken_value:
  "readToken tk = (Inr (Some t), tk') \<Longrightarrow> token_value t \<noteq> [] \<and> token_type t \<noteq> []"
proof (induction tk arbitrary: t tk' rule: readToken.induct)
  case (1 tk)
  let ?INPUT = "drop (index tk) (buffer tk)"
  from "1.prems" obtain TT tokenValue tokenLength where
    fm: "first_match (TokenTypes tk) ?INPUT = Inr (Some (TT, tokenValue, tokenLength))"
    by (subst (asm) readToken.simps) (auto simp: Let_def split: sum.splits option.splits)
  let ?tk1 = "tk\<lparr>index := index tk + tokenLength\<rparr>"
  show ?case
  proof (cases "falsy (name TT) \<or> falsy tokenValue")
    case True
    with "1.prems" fm have ne: "\<not> isEOF_t ?tk1" and rec: "readToken ?tk1 = (Inr (Some t), tk')"
      by (subst (asm) readToken.simps, simp add: Let_def split: if_splits)+
    show ?thesis using "1.IH"[OF refl fm refl refl refl refl True ne rec] .
  next
    case False
    with "1.prems" fm have
      "t = \<lparr>token_type = the (name TT), token_value = the tokenValue, token_hidden = hidden TT\<rparr>"
      by (subst (asm) readToken.simps) (auto simp: Let_def split: if_splits)
    moreover from False have "the (name TT) \<noteq> []" "the tokenValue \<noteq> []"
      by (cases "name TT"; cases tokenValue; simp)+
    ultimately show ?thesis by simp
  qed
qed

lemma fill_lookahead_values:
  "fill_lookahead tk = (out, tk') \<Longrightarrow> all_values_nonempty (lookaheadBuffer tk) \<Longrightarrow>
   all_values_nonempty (lookaheadBuffer tk')"
proof (induction tk arbitrary: out tk' rule: fill_lookahead.induct)
  case (1 tk)
  show ?case
  proof (cases "isEOF_t tk")
    case True
    with "1.prems" show ?thesis by (subst (asm) fill_lookahead.simps) simp
  next
    case False
    obtain r tk1 where rt: "readToken tk = (r, tk1)" by (cases "readToken tk")
    have fr: "lookaheadBuffer tk1 = lookaheadBuffer tk" using readToken_frame[OF rt] by simp
    show ?thesis
    proof (cases r)
      case (Inl e)
      with False rt "1.prems"(1) have "tk' = tk1"
        by (subst (asm) fill_lookahead.simps) simp
      with fr "1.prems"(2) show ?thesis by simp
    next
      case (Inr Token)
      let ?tk2 = "tk1\<lparr>lookaheadBuffer := lookaheadBuffer tk1 @ [Token]\<rparr>"
      from Inr False rt "1.prems"(1) have rec: "fill_lookahead ?tk2 = (out, tk')"
        by (subst (asm) fill_lookahead.simps) simp
      have "all_values_nonempty (lookaheadBuffer ?tk2)"
      proof (cases Token)
        case None
        with fr "1.prems"(2) show ?thesis by (auto simp: all_values_nonempty_def)
      next
        case (Some t)
        with rt Inr have "token_value t \<noteq> []" using readToken_value by blast
        with Some fr "1.prems"(2) show ?thesis by (auto simp: all_values_nonempty_def)
      qed
      with "1.IH"[OF False rt[symmetric] Inr rec] show ?thesis
        by blast
    qed
  qed
qed

lemma first_match_append:
  "list_all (\<lambda>E. reports_no_match E INPUT) earlier \<Longrightarrow>
   first_match (earlier @ rest) INPUT = first_match rest INPUT"
  by (induction earlier) (auto simp: reports_no_match_def split: sum.splits)

lemma first_match_split:
  "first_match TTs INPUT = Inr (Some (TT, v, n)) \<Longrightarrow>
   \<exists>earlier later. TTs = earlier @ TT # later \<and>
     list_all (\<lambda>E. reports_no_match E INPUT) earlier \<and> reports_match TT INPUT v n"
proof (induction TTs)
  case Nil
  then show ?case by simp
next
  case (Cons E TTs)
  show ?case
  proof (cases "reports_no_match E INPUT")
    case True
    with Cons.prems have "first_match TTs INPUT = Inr (Some (TT, v, n))"
      by (auto simp: reports_no_match_def split: sum.splits)
    from Cons.IH[OF this] obtain earlier later where
      "TTs = earlier @ TT # later" "list_all (\<lambda>E. reports_no_match E INPUT) earlier"
      "reports_match TT INPUT v n" by blast
    with True have "E # TTs = (E # earlier) @ TT # later \<and>
      list_all (\<lambda>E. reports_no_match E INPUT) (E # earlier) \<and> reports_match TT INPUT v n"
      by simp
    then show ?thesis by blast
  next
    case False
    with Cons.prems have "E = TT \<and> reports_match TT INPUT v n"
      by (auto simp: reports_no_match_def reports_match_def split: sum.splits if_splits)
    then have "E # TTs = [] @ TT # TTs \<and> list_all (\<lambda>E. reports_no_match E INPUT) [] \<and>
      reports_match TT INPUT v n" by simp
    then show ?thesis by blast
  qed
qed

lemma first_match_mem:
  "first_match TTs INPUT = Inr (Some (TT, v, n)) \<Longrightarrow> TT \<in> set TTs"
  using first_match_split by fastforce

lemma try_matcher_RegExp:
  "matcher TT = RegExpObj re \<Longrightarrow> re INPUT = Some (i, m) \<Longrightarrow>
   try_matcher TT INPUT = Inr (Some m, length m)"
  by (simp add: try_matcher_def)

lemma first_match_anchored_type:
  "first_match TTs INPUT = Inr (Some (TT, v, n)) \<Longrightarrow> matcher TT = RegExpObj re \<Longrightarrow>
   anchored re \<Longrightarrow> matches_text re \<Longrightarrow>
   \<exists>m. v = Some m \<and> m \<noteq> [] \<and> n = length m \<and> m = take (length m) INPUT"
proof -
  assume fm: "first_match TTs INPUT = Inr (Some (TT, v, n))"
    and re: "matcher TT = RegExpObj re" "anchored re" "matches_text re"
  from first_match_split[OF fm] have rm: "reports_match TT INPUT v n" by blast
  then have tm: "try_matcher TT INPUT = Inr (v, n)" and nz: "\<not> (falsy v \<and> 1 > n)"
    by (simp_all add: reports_match_def)
  from tm re(1) nz obtain i m where m: "re INPUT = Some (i, m)" "v = Some m" "n = length m"
    by (cases "re INPUT") (auto simp: try_matcher_def)
  from m(1) re(2) have "i = 0" by (auto simp: anchored_def)
  with m(1) re(3) have "m = take (length m) INPUT" by (fastforce simp: matches_text_def)
  moreover from nz m have "m \<noteq> []" by auto
  ultimately show ?thesis using m by blast
qed

lemma first_match_anchored:
  "anchored_patterns TTs \<Longrightarrow> first_match TTs INPUT = Inr (Some (TT, v, n)) \<Longrightarrow>
   \<exists>m. v = Some m \<and> m \<noteq> [] \<and> n = length m \<and> m = take (length m) INPUT"
proof -
  assume ap: "anchored_patterns TTs" and fm: "first_match TTs INPUT = Inr (Some (TT, v, n))"
  from first_match_mem[OF fm] ap obtain re where
    "matcher TT = RegExpObj re" "anchored re" "matches_text re"
    by (auto simp: anchored_patterns_def)
  with fm show ?thesis by (rule first_match_anchored_type)
qed

lemma readToken_anchored:
  "readToken tk = (Inr (Some t), tk') \<Longrightarrow> anchored_patterns (TokenTypes tk) \<Longrightarrow>
   index tk + length (token_value t) \<le> index tk' \<and>
   token_value t =
     take (length (token_value t)) (drop (index tk' - length (token_value t)) (buffer tk))"
proof (induction tk arbitrary: t tk' rule: readToken.induct)
  case (1 tk)
  let ?INPUT = "drop (index tk) (buffer tk)"
  from "1.prems"(1) obtain TT tokenValue tokenLength where
    fm: "first_match (TokenTypes tk) ?INPUT = Inr (Some (TT, tokenValue, tokenLength))"
    by (subst (asm) readToken.simps) (auto simp: Let_def split: sum.splits option.splits)
  from first_match_anchored[OF "1.prems"(2) fm] obtain m where
    m: "tokenValue = Some m" "m \<noteq> []" "tokenLength = length m" "m = take (length m) ?INPUT"
    by blast
  let ?tk1 = "tk\<lparr>index := index tk + tokenLength\<rparr>"
  show ?case
  proof (cases "falsy (name TT) \<or> falsy tokenValue")
    case True
    with "1.prems"(1) fm have ne: "\<not> isEOF_t ?tk1"
      and rec: "readToken ?tk1 = (Inr (Some t), tk')"
      by (subst (asm) readToken.simps, simp add: Let_def split: if_splits)+
    have "anchored_patterns (TokenTypes ?tk1)" using "1.prems"(2) by simp
    from "1.IH"[OF refl fm refl refl refl refl True ne rec this]
    show ?thesis by simp
  next
    case False
    with "1.prems"(1) fm have
      "t = \<lparr>token_type = the (name TT), token_value = the tokenValue, token_hidden = hidden TT\<rparr>"
      and "tk' = ?tk1"
      by (subst (asm) readToken.simps, auto simp: Let_def split: if_splits)+
    with m show ?thesis by simp
  qed
qed

lemma readToken_discards:
  "consumed_by_discards TTs source i \<Longrightarrow> i < length source \<Longrightarrow>
   TokenTypes tk = TTs \<Longrightarrow> buffer tk = source \<Longrightarrow> index tk = i \<Longrightarrow>
   \<exists>j. length source \<le> j \<and> readToken tk = (Inr None, tk\<lparr>index := j\<rparr>)"
proof (induction arbitrary: tk rule: consumed_by_discards.induct)
  case (at_end i)
  then show ?case by simp
next
  case (discard i TT v n)
  let ?tk1 = "tk\<lparr>index := index tk + n\<rparr>"
  have fm: "first_match (TokenTypes tk) (drop (index tk) (buffer tk)) = Inr (Some (TT, v, n))"
    using discard by simp
  have step: "readToken tk = (if isEOF_t ?tk1 then (Inr None, ?tk1) else readToken ?tk1)"
    using fm discard.hyps(2) by (subst readToken.simps) (simp add: Let_def)
  show ?case
  proof (cases "isEOF_t ?tk1")
    case True
    then have "length source \<le> index tk + n" using discard.prems by (simp add: isEOF_t_def)
    with step True show ?thesis by auto
  next
    case False
    then have "i + n < length source" using discard.prems by (simp add: isEOF_t_def)
    from discard.IH[OF this, of ?tk1] discard.prems
    obtain j where "length source \<le> j" "readToken ?tk1 = (Inr None, ?tk1\<lparr>index := j\<rparr>)"
      by auto
    with step False show ?thesis by auto
  qed
qed

lemma initialize_discards:
  "consumed_by_discards (TokenTypes tk) source 0 \<Longrightarrow>
   \<exists>j buf. initialize source tk =
       (Inr (), tk\<lparr>buffer := source, index := j, lookaheadBuffer := buf, lookaheadIndex := 0\<rparr>) \<and>
     (buf = [] \<or> buf = [None])"
proof (cases "source = []")
  case True
  then have "initialize source tk =
      (Inr (), tk\<lparr>buffer := source, index := 0, lookaheadBuffer := [], lookaheadIndex := 0\<rparr>)"
    by (simp add: initialize_def fill_lookahead.simps isEOF_t_def)
  then show ?thesis by blast
next
  case False
  assume c: "consumed_by_discards (TokenTypes tk) source 0"
  let ?tk0 = "tk\<lparr>buffer := source, index := 0, lookaheadBuffer := [], lookaheadIndex := 0\<rparr>"
  from readToken_discards[OF c, of ?tk0] False
  obtain j where j: "length source \<le> j" and r: "readToken ?tk0 = (Inr None, ?tk0\<lparr>index := j\<rparr>)"
    by auto
  have "fill_lookahead ?tk0 = fill_lookahead (?tk0\<lparr>index := j, lookaheadBuffer := [None]\<rparr>)"
    using False r by (subst fill_lookahead.simps) (simp add: isEOF_t_def)
  also have "\<dots> = (Inr (), ?tk0\<lparr>index := j, lookaheadBuffer := [None]\<rparr>)"
    using j by (subst fill_lookahead.simps) (simp add: isEOF_t_def)
  finally have "initialize source tk =
      (Inr (), tk\<lparr>buffer := source, index := j, lookaheadBuffer := [None], lookaheadIndex := 0\<rparr>)"
    by (simp add: initialize_def)
  then show ?thesis by blast
qed

section \<open>Lemmas on \<^verbatim>\<open>parse\<close>\<close>

text \<open>
  The flag is cleared when the tokenizer returns, whatever the main function does; it
  stays set when the tokenizer throws.
\<close>

lemma parse_flag_after_main:
  "\<not> parsing a \<Longrightarrow> fst (initialize source (Tokenizer a)) = Inr u \<Longrightarrow>
   \<not> parsing (snd (parse main source a))"
  by (cases "initialize source (Tokenizer a)")
     (auto simp: parse_def errorIfParsing_def Let_def split: prod.splits)

lemma parse_flag_after_tokenizer_error:
  "\<not> parsing a \<Longrightarrow> fst (initialize source (Tokenizer a)) = Inl e \<Longrightarrow>
   parse main source a = (Inl e, whilst_parsing source a) \<and>
   parsing (snd (parse main source a))"
  by (cases "initialize source (Tokenizer a)")
     (auto simp: parse_def errorIfParsing_def Let_def whilst_parsing_def)

section \<open>Lemmas on the examples\<close>

lemma whilst_parsing_newline_12:
  "whilst_parsing [CHR 0x0A, CHR ''1'', CHR ''2''] number_parser =
     \<lparr>Tokenizer = \<lparr>TokenTypes = TokenTypes (Tokenizer number_parser),
                    buffer = [CHR 0x0A, CHR ''1'', CHR ''2''], index = 3,
                    lookaheadBuffer = [Some newline_token, Some (number_token ''12'')],
                    lookaheadIndex = 0\<rparr>,
      parsing = True\<rparr>"
  by (simp add: whilst_parsing_def number_parser_def registerToken_def registerHiddenToken_def
      addTokenType_def errorIfParsing_def new_Anatomize_def initialize_def
      fill_lookahead.simps readToken.simps isEOF_t_def try_matcher_def re_digits_def
      re_newlines_def is_digit_def Let_def newline_token_def number_token_def)

lemma whilst_parsing_newline:
  "whilst_parsing [CHR 0x0A] number_parser =
     \<lparr>Tokenizer = \<lparr>TokenTypes = TokenTypes (Tokenizer number_parser),
                    buffer = [CHR 0x0A], index = 1,
                    lookaheadBuffer = [Some newline_token], lookaheadIndex = 0\<rparr>,
      parsing = True\<rparr>"
  by (simp add: whilst_parsing_def number_parser_def registerToken_def registerHiddenToken_def
      addTokenType_def errorIfParsing_def new_Anatomize_def initialize_def
      fill_lookahead.simps readToken.simps isEOF_t_def try_matcher_def re_digits_def
      re_newlines_def is_digit_def Let_def newline_token_def)

lemma anchored_re_digits: "anchored re_digits \<and> matches_text re_digits"
proof -
  have "takeWhile P xs = take (length (takeWhile P xs)) xs" for P and xs :: string
    by (metis append_eq_conv_conj takeWhile_dropWhile_id)
  then show ?thesis
    by (auto simp: anchored_def matches_text_def re_digits_def Let_def split: if_splits)
qed

lemma equals_routine_matches:
  "match equals_routine ''==1'' = Inr (RetOther, Some ''=='', 2) \<and>
   match equals_routine ''=1'' = Inr (RetOther, Some ''='', 1) \<and>
   match equals_routine ''1'' = Inr (RetOther, None, 0) \<and>
   match equals_routine ''='' = Inl RangeError_Read"
  by (simp add: match_def equals_routine_def readChar_def m_isEOF_def)

section \<open>The claims\<close>

text \<open>
  C1. The parsing flag is to be false after every exit of \<^verbatim>\<open>parse\<close>. The code sets the
  flag, then calls \<^verbatim>\<open>this.#Tokenizer.initialize(source)\<close>, and only then enters the
  \<^verbatim>\<open>try\<close> block whose \<^verbatim>\<open>finally\<close> clears the flag. An error thrown by the tokenizer
  therefore leaves the flag set, and every later \<^verbatim>\<open>parse\<close> on the facade is rejected,
  whatever the main functions are. Two such inputs: the source \<^verbatim>\<open>a\<close> with only
  \<^verbatim>\<open>NUMBER\<close> and the hidden \<^verbatim>\<open>;\<close> registered (undefined token), and the source
  \<^verbatim>\<open>=\<close> with a matcher routine that reads two characters (it reads past the end).
\<close>

theorem parse_flag_stuck:
  "fst (parse main ''a'' number_parser) = Inl (SyntaxError_UndefinedToken ''a'') \<and>
   parsing (snd (parse main ''a'' number_parser)) \<and>
   fst (parse main' ''1'' (snd (parse main ''a'' number_parser))) =
     Inl SyntaxError_WhilstParsing \<and>
   fst (parse main ''='' equals_parser) = Inl RangeError_Read \<and>
   parsing (snd (parse main ''='' equals_parser)) \<and>
   fst (parse main' ''=='' (snd (parse main ''='' equals_parser))) =
     Inl SyntaxError_WhilstParsing"
proof -
  have n: "\<not> parsing number_parser"
    by (simp add: number_parser_def registerToken_def registerHiddenToken_def addTokenType_def
        errorIfParsing_def new_Anatomize_def)
  have i: "fst (initialize ''a'' (Tokenizer number_parser)) = Inl (SyntaxError_UndefinedToken ''a'')"
    by (simp add: number_parser_def registerToken_def registerHiddenToken_def
        addTokenType_def errorIfParsing_def new_Anatomize_def initialize_def
        fill_lookahead.simps readToken.simps isEOF_t_def try_matcher_def re_digits_def
        re_newlines_def is_digit_def Let_def)
  have n': "\<not> parsing equals_parser"
    by (simp add: equals_parser_def registerToken_def addTokenType_def
        errorIfParsing_def new_Anatomize_def)
  have i': "fst (initialize ''='' (Tokenizer equals_parser)) = Inl RangeError_Read"
    by (simp add: equals_parser_def registerToken_def
        addTokenType_def errorIfParsing_def new_Anatomize_def initialize_def
        fill_lookahead.simps readToken.simps isEOF_t_def try_matcher_def equals_routine_matches
        Let_def)
  note a = parse_flag_after_tokenizer_error[OF n i, of main]
  note b = parse_flag_after_tokenizer_error[OF n' i', of main]
  have "fst (parse main' src a) = Inl SyntaxError_WhilstParsing" if "parsing a" for src a
    using that by (simp add: parse_def errorIfParsing_def)
  with a b show ?thesis by (simp add: whilst_parsing_def)
qed

text \<open>
  C2. As the claim states it, the tokenizer treats every RegExp as an anchored prefix
  match. It does not: \<^verbatim>\<open>#readToken\<close> takes the first element of
  \<^verbatim>\<open>INPUT.match(TokenType.matcher)\<close>, wherever in \<^verbatim>\<open>INPUT\<close> that match starts, and
  advances the source position by its length. With \<^verbatim>\<open>/\d+/\<close> registered and the source
  \<^verbatim>\<open>ab12\<close>, the match starts at position 2 of the rest, a token is produced all the
  same, the position moves to 2, and the digits are tokenized a second time.
\<close>

theorem regexp_not_anchored_counterexample:
  "re_digits_unanchored ''ab12'' = Some (2, ''12'') \<and>
   readToken \<lparr>TokenTypes = [digits_type], buffer = ''ab12'', index = 0,
              lookaheadBuffer = [], lookaheadIndex = 0\<rparr> =
     (Inr (Some \<lparr>token_type = ''DIGITS'', token_value = ''12'', token_hidden = False\<rparr>),
      \<lparr>TokenTypes = [digits_type], buffer = ''ab12'', index = 2,
       lookaheadBuffer = [], lookaheadIndex = 0\<rparr>) \<and>
   lookaheadBuffer (snd (initialize ''ab12''
       \<lparr>TokenTypes = [digits_type], buffer = [], index = 0,
        lookaheadBuffer = [], lookaheadIndex = 0\<rparr>)) =
     [Some \<lparr>token_type = ''DIGITS'', token_value = ''12'', token_hidden = False\<rparr>,
      Some \<lparr>token_type = ''DIGITS'', token_value = ''12'', token_hidden = False\<rparr>]"
  by (simp add: initialize_def fill_lookahead.simps readToken.simps isEOF_t_def try_matcher_def
      digits_type_def re_digits_unanchored_def is_digit_def Let_def)

text \<open>
  C2, as amended. The tokenizer uses the match of a RegExp wherever it starts: the value
  is the matched text and the length its length. When every registered pattern is
  anchored (it matches only at the start of its input, and the matched text is the text
  there), a token is produced only from a match at the very start of the rest of the
  source: its value is the source text that ends at the new position, and the position
  has advanced by at least its length (discards may precede it). In any registry, a
  match chosen from an anchored pattern is the text at the start of the rest of the
  source.
\<close>

theorem anchored_prefix_match:
  "(matcher TT = RegExpObj re \<and> re INPUT = Some (i, m) \<longrightarrow>
      try_matcher TT INPUT = Inr (Some m, length m)) \<and>
   (first_match TTs INPUT = Inr (Some (TT, v, n)) \<and> matcher TT = RegExpObj re \<and>
    anchored re \<and> matches_text re \<longrightarrow>
      0 < n \<and> v = Some (take n INPUT)) \<and>
   (anchored_patterns (TokenTypes tk) \<and> readToken tk = (Inr (Some t), tk') \<longrightarrow>
      index tk + length (token_value t) \<le> index tk' \<and>
      token_value t =
        take (length (token_value t)) (drop (index tk' - length (token_value t)) (buffer tk)))"
proof (intro conjI impI)
  assume "matcher TT = RegExpObj re \<and> re INPUT = Some (i, m)"
  then show "try_matcher TT INPUT = Inr (Some m, length m)"
    by (simp add: try_matcher_RegExp)
next
  assume a: "first_match TTs INPUT = Inr (Some (TT, v, n)) \<and> matcher TT = RegExpObj re \<and>
    anchored re \<and> matches_text re"
  then obtain w where w: "v = Some w" "w \<noteq> []" "n = length w" "w = take (length w) INPUT"
    using first_match_anchored_type by blast
  then show "0 < n" by simp
  from w show "v = Some (take n INPUT)" by simp
next
  assume a: "anchored_patterns (TokenTypes tk) \<and> readToken tk = (Inr (Some t), tk')"
  then show "index tk + length (token_value t) \<le> index tk'"
    using readToken_anchored by blast
  from a show "token_value t =
      take (length (token_value t)) (drop (index tk' - length (token_value t)) (buffer tk))"
    using readToken_anchored by blast
qed

theorem anchored_prefix_match_witness:
  "anchored_patterns [number_type] \<and>
   re_digits ''12 3'' = Some (0, ''12'') \<and>
   try_matcher number_type ''12 3'' = Inr (Some ''12'', 2) \<and>
   readToken \<lparr>TokenTypes = [number_type], buffer = ''12 3'', index = 0,
              lookaheadBuffer = [], lookaheadIndex = 0\<rparr> =
     (Inr (Some (number_token ''12'')),
      \<lparr>TokenTypes = [number_type], buffer = ''12 3'', index = 2,
       lookaheadBuffer = [], lookaheadIndex = 0\<rparr>) \<and>
   first_match [space_type, number_type] ''12 3'' = Inr (Some (number_type, Some ''12'', 2)) \<and>
   token_value (number_token ''12'') = take 2 (drop (2 - 2) ''12 3'')"
proof -
  let ?tk = "\<lparr>TokenTypes = [number_type], buffer = ''12 3'', index = 0,
              lookaheadBuffer = [], lookaheadIndex = 0\<rparr>"
  let ?tk' = "\<lparr>TokenTypes = [number_type], buffer = ''12 3'', index = 2,
              lookaheadBuffer = [], lookaheadIndex = 0\<rparr>"
  have ap: "anchored_patterns [number_type]"
    using anchored_re_digits by (auto simp: anchored_patterns_def number_type_def)
  have re: "re_digits ''12 3'' = Some (0, ''12'')"
    by (simp add: re_digits_def is_digit_def)
  have mt: "matcher number_type = RegExpObj re_digits" by (simp add: number_type_def)
  have rt: "readToken ?tk = (Inr (Some (number_token ''12'')), ?tk')"
    by (simp add: readToken.simps try_matcher_def number_type_def re_digits_def is_digit_def
        Let_def number_token_def)
  have ap': "anchored_patterns (TokenTypes ?tk)" using ap by simp
  have fm: "first_match [space_type, number_type] ''12 3'' =
      Inr (Some (number_type, Some ''12'', 2))"
    by (simp add: try_matcher_def space_type_def number_type_def re_space_def re_digits_def
        is_space_def is_digit_def)
  note inst = anchored_prefix_match[where TT=number_type and re=re_digits
      and INPUT="''12 3''" and i=0 and m="''12''" and tk="?tk" and t="number_token ''12''"
      and tk'="?tk'" and TTs="[space_type, number_type]" and v="Some ''12''" and n=2]
  note i1 = inst[THEN conjunct1]
  note i2 = inst[THEN conjunct2, THEN conjunct1]
  note i3 = inst[THEN conjunct2, THEN conjunct2]
  have t1: "try_matcher number_type ''12 3'' = Inr (Some ''12'', length ''12'')"
    by (rule mp[OF i1]) (intro conjI mt re)
  have ar: "anchored re_digits" "matches_text re_digits"
    using anchored_re_digits by simp_all
  have t2: "0 < (2::nat) \<and> Some ''12'' = Some (take 2 ''12 3'')"
    by (rule mp[OF i2]) (intro conjI fm mt ar)
  have t3: "index ?tk + length (token_value (number_token ''12'')) \<le> index ?tk' \<and>
      token_value (number_token ''12'') =
      take (length (token_value (number_token ''12'')))
        (drop (index ?tk' - length (token_value (number_token ''12''))) (buffer ?tk))"
    by (rule mp[OF i3]) (intro conjI ap' rt)
  have v: "token_value (number_token ''12'') = ''12''" by (simp add: number_token_def)
  have "try_matcher number_type ''12 3'' = Inr (Some ''12'', 2)" using t1 by simp
  moreover have "token_value (number_token ''12'') = take 2 (drop (2 - 2) ''12 3'')"
    using t3 unfolding v by simp
  ultimately show ?thesis using ap re rt fm by blast
qed

text \<open>
  C3. During parsing, \<^verbatim>\<open>peek(offset)\<close> never returns a token whose hidden flag is true:
  it returns the entry on which the walk from position \<open>cursor + offset\<close> past consecutive
  hidden tokens ends, that is the first non-hidden token, or nothing when only hidden
  tokens or nothing remain there (a position before the buffer holds nothing). It never
  changes the read cursor or any other part of the facade, whether it returns or throws.
\<close>

theorem peek_hidden_transparent:
  "snd (peek offset a) = a \<and>
   (parsing a \<longrightarrow>
      fst (peek offset a) =
        Inr (entry_after_hidden (lookaheadBuffer (Tokenizer a))
               (int (lookaheadIndex (Tokenizer a)) + offset)) \<and>
      \<not> is_hidden (entry_after_hidden (lookaheadBuffer (Tokenizer a))
               (int (lookaheadIndex (Tokenizer a)) + offset)))"
proof -
  have "snd (peek offset a) = a"
    by (simp add: peek_def errorIfNotParsing_def Let_def)
  moreover have "parsing a \<Longrightarrow> fst (peek offset a) =
      Inr (entry_after_hidden (lookaheadBuffer (Tokenizer a))
             (int (lookaheadIndex (Tokenizer a)) + offset))"
    by (simp add: peek_walk)
  ultimately show ?thesis using entry_after_hidden_visible by blast
qed

theorem peek_hidden_transparent_witness:
  "parsing (whilst_parsing [CHR 0x0A, CHR ''1'', CHR ''2''] number_parser) \<and>
   peek 0 (whilst_parsing [CHR 0x0A, CHR ''1'', CHR ''2''] number_parser) =
     (Inr (Some (number_token ''12'')),
      whilst_parsing [CHR 0x0A, CHR ''1'', CHR ''2''] number_parser) \<and>
   peek 2 (whilst_parsing [CHR 0x0A, CHR ''1'', CHR ''2''] number_parser) =
     (Inr None, whilst_parsing [CHR 0x0A, CHR ''1'', CHR ''2''] number_parser)"
proof -
  let ?a = "whilst_parsing [CHR 0x0A, CHR ''1'', CHR ''2''] number_parser"
  have p: "parsing ?a" by (simp add: whilst_parsing_def)
  have "entry_after_hidden (lookaheadBuffer (Tokenizer ?a))
          (int (lookaheadIndex (Tokenizer ?a)) + 0) = Some (number_token ''12'')"
    by (simp add: whilst_parsing_newline_12 entry_after_hidden_def is_hidden_def
        newline_token_def number_token_def)
  moreover have "entry_after_hidden (lookaheadBuffer (Tokenizer ?a))
          (int (lookaheadIndex (Tokenizer ?a)) + 2) = None"
    by (simp add: whilst_parsing_newline_12 entry_after_hidden_def)
  ultimately show ?thesis
    using p peek_hidden_transparent[of 0 ?a] peek_hidden_transparent[of 2 ?a]
    by (metis prod.collapse)
qed

text \<open>
  C4. During parsing, \<^verbatim>\<open>read(T)\<close> consumes entries from the read cursor and skips a
  consumed entry exactly when it is a hidden token whose type differs from \<open>T\<close>: it ends
  on the entry after the \<open>skip_count\<close> skipped ones. Hence, when the next raw token is
  hidden and of type \<open>T\<close>, \<^verbatim>\<open>read(T)\<close> consumes and returns it; when the next raw token
  is hidden and of another type, it is consumed silently and the read goes on with the
  following entry.
\<close>

theorem read_hidden_fallback:
  "parsing a \<longrightarrow>
   read T a =
     (if lookaheadIndex (Tokenizer a) + skip_count T (Tokenizer a)
           < length (lookaheadBuffer (Tokenizer a))
      then (case lookaheadBuffer (Tokenizer a) !
                   (lookaheadIndex (Tokenizer a) + skip_count T (Tokenizer a)) of
              None \<Rightarrow> Inl SyntaxError_EndOfInput
            | Some t \<Rightarrow>
                if token_type t \<noteq> T then Inl (SyntaxError_UnexpectedToken T (token_type t))
                else Inr t,
            advanced (skip_count T (Tokenizer a) + 1) a)
      else (Inl SyntaxError_EndOfInput, advanced (skip_count T (Tokenizer a)) a)) \<and>
   (\<forall>t. lookaheadIndex (Tokenizer a) < length (lookaheadBuffer (Tokenizer a)) \<and>
        lookaheadBuffer (Tokenizer a) ! lookaheadIndex (Tokenizer a) = Some t \<and>
        token_hidden t \<longrightarrow>
        (token_type t = T \<longrightarrow> read T a = (Inr t, advanced 1 a)) \<and>
        (token_type t \<noteq> T \<longrightarrow> read T a = read T (advanced 1 a)))"
proof (intro impI conjI allI)
  assume p: "parsing a"
  show "read T a =
     (if lookaheadIndex (Tokenizer a) + skip_count T (Tokenizer a)
           < length (lookaheadBuffer (Tokenizer a))
      then (case lookaheadBuffer (Tokenizer a) !
                   (lookaheadIndex (Tokenizer a) + skip_count T (Tokenizer a)) of
              None \<Rightarrow> Inl SyntaxError_EndOfInput
            | Some t \<Rightarrow>
                if token_type t \<noteq> T then Inl (SyntaxError_UnexpectedToken T (token_type t))
                else Inr t,
            advanced (skip_count T (Tokenizer a) + 1) a)
      else (Inl SyntaxError_EndOfInput, advanced (skip_count T (Tokenizer a)) a))"
    using p by (rule read_walk)
next
  fix t
  assume p: "parsing a"
    and h: "lookaheadIndex (Tokenizer a) < length (lookaheadBuffer (Tokenizer a)) \<and>
        lookaheadBuffer (Tokenizer a) ! lookaheadIndex (Tokenizer a) = Some t \<and>
        token_hidden t"
    and ty: "token_type t = T"
  have "\<not> skipped_by_read T (lookaheadBuffer (Tokenizer a) ! lookaheadIndex (Tokenizer a))"
    using h ty by (simp add: skipped_by_read_def type_of_def)
  then have "skip_count T (Tokenizer a) = 0" using h by (simp add: skip_count_0)
  then show "read T a = (Inr t, advanced 1 a)"
    using p h ty by (simp add: read_walk)
next
  fix t
  assume p: "parsing a"
    and h: "lookaheadIndex (Tokenizer a) < length (lookaheadBuffer (Tokenizer a)) \<and>
        lookaheadBuffer (Tokenizer a) ! lookaheadIndex (Tokenizer a) = Some t \<and>
        token_hidden t"
    and ty: "token_type t \<noteq> T"
  have "skipped_by_read T (lookaheadBuffer (Tokenizer a) ! lookaheadIndex (Tokenizer a))"
    using h ty by (simp add: skipped_by_read_def type_of_def is_hidden_def)
  then have sc: "skip_count T (Tokenizer a) = Suc (skip_count T (Tokenizer (advanced 1 a)))"
    using h by (simp add: skip_count_Suc advanced_def)
  have p': "parsing (advanced 1 a)" using p by (simp add: advanced_def)
  have adv: "\<And>n. advanced n (advanced 1 a) = advanced (Suc n) a"
    by (simp add: advanced_def)
  show "read T a = read T (advanced 1 a)"
    unfolding read_walk[OF p] read_walk[OF p'] sc adv
    by (simp add: advanced_def)
qed

theorem read_hidden_fallback_witness:
  "parsing (whilst_parsing [CHR 0x0A, CHR ''1'', CHR ''2''] number_parser) \<and>
   read '';'' (whilst_parsing [CHR 0x0A, CHR ''1'', CHR ''2''] number_parser) =
     (Inr newline_token,
      advanced 1 (whilst_parsing [CHR 0x0A, CHR ''1'', CHR ''2''] number_parser)) \<and>
   read ''NUMBER'' (whilst_parsing [CHR 0x0A, CHR ''1'', CHR ''2''] number_parser) =
     (Inr (number_token ''12''),
      advanced 2 (whilst_parsing [CHR 0x0A, CHR ''1'', CHR ''2''] number_parser))"
proof -
  let ?a = "whilst_parsing [CHR 0x0A, CHR ''1'', CHR ''2''] number_parser"
  have p: "parsing ?a" by (simp add: whilst_parsing_def)
  have nx: "lookaheadIndex (Tokenizer ?a) < length (lookaheadBuffer (Tokenizer ?a)) \<and>
      lookaheadBuffer (Tokenizer ?a) ! lookaheadIndex (Tokenizer ?a) = Some newline_token \<and>
      token_hidden newline_token"
    by (simp add: whilst_parsing_newline_12 newline_token_def)
  have ty: "token_type newline_token = '';''" "token_type newline_token \<noteq> ''NUMBER''"
    by (simp_all add: newline_token_def)
  have r1: "read '';'' ?a = (Inr newline_token, advanced 1 ?a)"
    using read_hidden_fallback[of ?a "'';''"] p nx ty by blast
  have "read ''NUMBER'' ?a = read ''NUMBER'' (advanced 1 ?a)"
    using read_hidden_fallback[of ?a "''NUMBER''"] p nx ty by blast
  also have "\<dots> = (Inr (number_token ''12''), advanced 2 ?a)"
    by (simp add: read_walk skip_count_def skipped_by_read_def is_hidden_def
        whilst_parsing_newline_12 advanced_def number_token_def)
  finally show ?thesis using p r1 by simp
qed

text \<open>
  C5. First match wins. When every token type registered before \<open>TT\<close> reports no match
  on the rest of the source and \<open>TT\<close> reports one, the loop of \<^verbatim>\<open>#readToken\<close> chooses
  \<open>TT\<close>, whatever the types registered after it would report: the token produced there
  is \<open>TT\<close>'s (or \<open>TT\<close>'s match is discarded, when \<open>TT\<close> has no name or the match no
  value). Conversely the type chosen is always preceded only by types that reported no
  match: a later type is reached only after all earlier ones have.
\<close>

theorem first_match_wins:
  "(list_all (\<lambda>E. reports_no_match E INPUT) earlier \<and> reports_match TT INPUT v n \<longrightarrow>
      first_match (earlier @ TT # later) INPUT = Inr (Some (TT, v, n)) \<and>
      (\<forall>tk. TokenTypes tk = earlier @ TT # later \<and> INPUT = drop (index tk) (buffer tk) \<and>
            \<not> falsy (name TT) \<and> \<not> falsy v \<longrightarrow>
            readToken tk =
              (Inr (Some \<lparr>token_type = the (name TT), token_value = the v,
                          token_hidden = hidden TT\<rparr>),
               tk\<lparr>index := index tk + n\<rparr>)) \<and>
      (\<forall>tk. TokenTypes tk = earlier @ TT # later \<and> INPUT = drop (index tk) (buffer tk) \<and>
            (falsy (name TT) \<or> falsy v) \<longrightarrow>
            readToken tk =
              (if isEOF_t (tk\<lparr>index := index tk + n\<rparr>)
               then (Inr None, tk\<lparr>index := index tk + n\<rparr>)
               else readToken (tk\<lparr>index := index tk + n\<rparr>)))) \<and>
   (first_match TTs INPUT = Inr (Some (TT, v, n)) \<longrightarrow>
      (\<exists>earlier later. TTs = earlier @ TT # later \<and>
         list_all (\<lambda>E. reports_no_match E INPUT) earlier \<and> reports_match TT INPUT v n))"
proof (intro conjI impI allI)
  assume a: "list_all (\<lambda>E. reports_no_match E INPUT) earlier \<and> reports_match TT INPUT v n"
  then show fm: "first_match (earlier @ TT # later) INPUT = Inr (Some (TT, v, n))"
    by (auto simp: first_match_append reports_match_def)
  fix tk :: TokenizerClass
  assume b: "TokenTypes tk = earlier @ TT # later \<and> INPUT = drop (index tk) (buffer tk) \<and>
            \<not> falsy (name TT) \<and> \<not> falsy v"
  with fm show "readToken tk =
              (Inr (Some \<lparr>token_type = the (name TT), token_value = the v,
                          token_hidden = hidden TT\<rparr>),
               tk\<lparr>index := index tk + n\<rparr>)"
    by (subst readToken.simps) (simp add: Let_def)
next
  fix tk :: TokenizerClass
  assume a: "list_all (\<lambda>E. reports_no_match E INPUT) earlier \<and> reports_match TT INPUT v n"
    and b: "TokenTypes tk = earlier @ TT # later \<and> INPUT = drop (index tk) (buffer tk) \<and>
            (falsy (name TT) \<or> falsy v)"
  from a have "first_match (earlier @ TT # later) INPUT = Inr (Some (TT, v, n))"
    by (auto simp: first_match_append reports_match_def)
  with b show "readToken tk =
              (if isEOF_t (tk\<lparr>index := index tk + n\<rparr>)
               then (Inr None, tk\<lparr>index := index tk + n\<rparr>)
               else readToken (tk\<lparr>index := index tk + n\<rparr>))"
    by (subst readToken.simps) (simp add: Let_def)
next
  assume "first_match TTs INPUT = Inr (Some (TT, v, n))"
  then show "\<exists>earlier later. TTs = earlier @ TT # later \<and>
         list_all (\<lambda>E. reports_no_match E INPUT) earlier \<and> reports_match TT INPUT v n"
    by (rule first_match_split)
qed

theorem first_match_wins_witness:
  "reports_no_match space_type ''12 3'' \<and>
   reports_match number_type ''12 3'' (Some ''12'') 2 \<and>
   reports_match digits_type ''12 3'' (Some ''12'') 2 \<and>
   readToken \<lparr>TokenTypes = [space_type, number_type, digits_type], buffer = ''12 3'', index = 0,
              lookaheadBuffer = [], lookaheadIndex = 0\<rparr> =
     (Inr (Some (number_token ''12'')),
      \<lparr>TokenTypes = [space_type, number_type, digits_type], buffer = ''12 3'', index = 2,
       lookaheadBuffer = [], lookaheadIndex = 0\<rparr>) \<and>
   reports_match space_type '' 3'' (Some '' '') 1 \<and>
   reports_match digits_type '' 3'' (Some ''3'') 1 \<and>
   readToken \<lparr>TokenTypes = [space_type, number_type, digits_type], buffer = ''12 3'', index = 2,
              lookaheadBuffer = [], lookaheadIndex = 0\<rparr> =
     readToken \<lparr>TokenTypes = [space_type, number_type, digits_type], buffer = ''12 3'', index = 3,
              lookaheadBuffer = [], lookaheadIndex = 0\<rparr> \<and>
   (\<exists>earlier later. [space_type, number_type, digits_type] = earlier @ number_type # later \<and>
      list_all (\<lambda>E. reports_no_match E ''12 3'') earlier)"
proof -
  let ?TTs = "[space_type, number_type, digits_type]"
  let ?tk = "\<lparr>TokenTypes = ?TTs, buffer = ''12 3'',
              index = 0, lookaheadBuffer = [], lookaheadIndex = 0\<rparr>"
  let ?tk2 = "\<lparr>TokenTypes = ?TTs, buffer = ''12 3'',
              index = 2, lookaheadBuffer = [], lookaheadIndex = 0\<rparr>"
  have s: "reports_no_match space_type ''12 3''"
    by (simp add: reports_no_match_def try_matcher_def space_type_def re_space_def is_space_def)
  have n: "reports_match number_type ''12 3'' (Some ''12'') 2"
    by (simp add: reports_match_def try_matcher_def number_type_def re_digits_def is_digit_def)
  have d: "reports_match digits_type ''12 3'' (Some ''12'') 2"
    by (simp add: reports_match_def try_matcher_def digits_type_def re_digits_unanchored_def
        is_digit_def)
  have e: "list_all (\<lambda>E. reports_no_match E ''12 3'') [space_type]" using s by simp
  have t: "TokenTypes ?tk = [space_type] @ number_type # [digits_type] \<and>
           ''12 3'' = drop (index ?tk) (buffer ?tk) \<and>
           \<not> falsy (name number_type) \<and> \<not> falsy (Some ''12'')"
    by (simp add: number_type_def)
  note fwd = first_match_wins[where INPUT="''12 3''" and earlier="[space_type]"
      and TT=number_type and v="Some ''12''" and n=2 and later="[digits_type]"
      and TTs="?TTs"]
  from fwd e n t
  have "readToken ?tk =
      (Inr (Some \<lparr>token_type = the (name number_type), token_value = the (Some ''12''),
                  token_hidden = hidden number_type\<rparr>), ?tk\<lparr>index := index ?tk + 2\<rparr>)"
    by blast
  then have r1: "readToken ?tk = (Inr (Some (number_token ''12'')), ?tk2)"
    by (simp add: number_type_def number_token_def)
  have s2: "reports_match space_type '' 3'' (Some '' '') 1"
    by (simp add: reports_match_def try_matcher_def space_type_def re_space_def is_space_def)
  have d2: "reports_match digits_type '' 3'' (Some ''3'') 1"
    by (simp add: reports_match_def try_matcher_def digits_type_def re_digits_unanchored_def
        is_digit_def)
  have t2: "TokenTypes ?tk2 = [] @ space_type # [number_type, digits_type] \<and>
           '' 3'' = drop (index ?tk2) (buffer ?tk2) \<and>
           (falsy (name space_type) \<or> falsy (Some '' ''))"
    by (simp add: space_type_def)
  have e2: "list_all (\<lambda>E. reports_no_match E '' 3'') []" by simp
  have ne: "\<not> isEOF_t (?tk2\<lparr>index := index ?tk2 + 1\<rparr>)" by (simp add: isEOF_t_def)
  have i3: "?tk2\<lparr>index := index ?tk2 + 1\<rparr> = ?tk2\<lparr>index := 3\<rparr>" by simp
  from first_match_wins[where INPUT="'' 3''" and earlier="[]" and TT=space_type
      and v="Some '' ''" and n=1 and later="[number_type, digits_type]"] e2 s2 t2
  have "readToken ?tk2 =
      (if isEOF_t (?tk2\<lparr>index := index ?tk2 + 1\<rparr>)
       then (Inr None, ?tk2\<lparr>index := index ?tk2 + 1\<rparr>)
       else readToken (?tk2\<lparr>index := index ?tk2 + 1\<rparr>))"
    by blast
  then have "readToken ?tk2 = readToken (?tk2\<lparr>index := index ?tk2 + 1\<rparr>)"
    by (simp only: ne if_False)
  then have r2: "readToken ?tk2 = readToken (?tk2\<lparr>index := 3\<rparr>)"
    by (simp only: i3)
  have "first_match ?TTs ''12 3'' = Inr (Some (number_type, Some ''12'', 2))"
    by (simp add: try_matcher_def space_type_def number_type_def re_space_def re_digits_def
        is_space_def is_digit_def)
  with fwd
  have c: "\<exists>earlier later. ?TTs = earlier @ number_type # later \<and>
      list_all (\<lambda>E. reports_no_match E ''12 3'') earlier"
    by blast
  have r2': "readToken ?tk2 =
     readToken \<lparr>TokenTypes = ?TTs, buffer = ''12 3'', index = 3,
              lookaheadBuffer = [], lookaheadIndex = 0\<rparr>"
    unfolding r2 by simp
  from s n d r1 s2 d2 r2' c show ?thesis by blast
qed

text \<open>
  C6. A source that is consumed entirely by discards up to its end (each match chosen on
  the way comes from a token type without a name, or has no value) is tokenized without
  error; the buffer left for the main function holds no token, so \<^verbatim>\<open>peek\<close> yields
  nothing at every offset and \<^verbatim>\<open>isEOF()\<close> is true at once. The main function of
  \<^verbatim>\<open>parse\<close> runs in that state. The registration of \<^verbatim>\<open>null\<close> with \<^verbatim>\<open>/^\s+/\<close> and
  a source of three spaces is the witness.
\<close>

theorem discards_only_empty_stream:
  "consumed_by_discards (TokenTypes (Tokenizer a)) source 0 \<Longrightarrow>
   fst (initialize source (Tokenizer a)) = Inr () \<and>
   (\<forall>t. Some t \<notin> set (lookaheadBuffer (Tokenizer (whilst_parsing source a)))) \<and>
   (\<forall>offset. peek offset (whilst_parsing source a) = (Inr None, whilst_parsing source a)) \<and>
   isEOF (whilst_parsing source a) = (Inr True, whilst_parsing source a) \<and>
   (\<not> parsing a \<longrightarrow>
      parse main source a =
        (case main (whilst_parsing source a) of (out, a2) \<Rightarrow> (out, a2\<lparr>parsing := False\<rparr>)))"
proof -
  assume c: "consumed_by_discards (TokenTypes (Tokenizer a)) source 0"
  from initialize_discards[OF c] obtain j buf where
    i: "initialize source (Tokenizer a) =
       (Inr (), (Tokenizer a)\<lparr>buffer := source, index := j, lookaheadBuffer := buf,
                               lookaheadIndex := 0\<rparr>)"
    and buf: "buf = [] \<or> buf = [None]" by blast
  let ?w = "whilst_parsing source a"
  have p: "parsing ?w" by (simp add: whilst_parsing_def)
  have lb: "lookaheadBuffer (Tokenizer ?w) = buf" by (simp add: whilst_parsing_def i)
  have pk: "peek offset ?w = (Inr None, ?w)" for offset
    using buf by (simp add: peek_walk[OF p] lb entry_after_hidden_nothing)
  have eof: "isEOF ?w = (Inr True, ?w)"
    using p by (simp add: isEOF_def errorIfNotParsing_def pk)
  have "\<not> parsing a \<Longrightarrow> parse main source a =
        (case main ?w of (out, a2) \<Rightarrow> (out, a2\<lparr>parsing := False\<rparr>))"
    by (simp add: parse_def errorIfParsing_def i whilst_parsing_def Let_def)
  moreover have "\<forall>t. Some t \<notin> set (lookaheadBuffer (Tokenizer ?w))"
    using buf lb by auto
  ultimately show ?thesis using i pk eof by simp
qed

theorem discards_only_empty_stream_witness:
  "consumed_by_discards (TokenTypes (Tokenizer space_parser)) ''   '' 0 \<and>
   \<not> parsing space_parser \<and>
   fst (initialize ''   '' (Tokenizer space_parser)) = Inr () \<and>
   peek 0 (whilst_parsing ''   '' space_parser) =
     (Inr None, whilst_parsing ''   '' space_parser) \<and>
   isEOF (whilst_parsing ''   '' space_parser) =
     (Inr True, whilst_parsing ''   '' space_parser) \<and>
   fst (parse isEOF ''   '' space_parser) = Inr True"
proof -
  have tt: "TokenTypes (Tokenizer space_parser) = [space_type]"
    by (simp add: space_parser_def registerToken_def addTokenType_def errorIfParsing_def
        new_Anatomize_def space_type_def)
  have np: "\<not> parsing space_parser"
    by (simp add: space_parser_def registerToken_def addTokenType_def errorIfParsing_def
        new_Anatomize_def)
  have fm: "first_match [space_type] (drop 0 ''   '') = Inr (Some (space_type, Some ''   '', 3))"
    by (simp add: try_matcher_def space_type_def re_space_def is_space_def)
  have e: "consumed_by_discards [space_type] ''   '' (0 + 3)"
    by (rule consumed_by_discards.at_end) simp
  have "consumed_by_discards [space_type] ''   '' 0"
    by (rule consumed_by_discards.discard[OF fm _ e]) (simp add: space_type_def)
  then have c: "consumed_by_discards (TokenTypes (Tokenizer space_parser)) ''   '' 0"
    by (simp only: tt)
  note inst = discards_only_empty_stream[OF c, of isEOF]
  from inst np have "parse isEOF ''   '' space_parser =
      (case isEOF (whilst_parsing ''   '' space_parser) of
         (out, a2) \<Rightarrow> (out, a2\<lparr>parsing := False\<rparr>))"
    by blast
  moreover from inst have eof: "isEOF (whilst_parsing ''   '' space_parser) =
      (Inr True, whilst_parsing ''   '' space_parser)"
    by blast
  ultimately have "fst (parse isEOF ''   '' space_parser) = Inr True" by simp
  with inst c np show ?thesis by blast
qed

text \<open>
  C7. Each of \<^verbatim>\<open>peek\<close>, \<^verbatim>\<open>read\<close>, \<^verbatim>\<open>isEOF\<close> and \<^verbatim>\<open>isPeekType\<close> fails when called
  while the parsing flag is false (the error of \<^verbatim>\<open>#errorIfNotParsing\<close>);
  \<^verbatim>\<open>registerToken\<close>, \<^verbatim>\<open>registerHiddenToken\<close> and \<^verbatim>\<open>parse\<close> fail when called while it
  is true (the error of \<^verbatim>\<open>#errorIfParsing\<close>). In each case the facade is left as it
  was: registry, buffer, cursors and flag.
\<close>

theorem mode_gating:
  "(\<not> parsing a \<longrightarrow>
      peek offset a = (Inl SyntaxError_NotParsing, a) \<and>
      read tokenType a = (Inl SyntaxError_NotParsing, a) \<and>
      isEOF a = (Inl SyntaxError_NotParsing, a) \<and>
      isPeekType tokenType offset a = (Inl SyntaxError_NotParsing, a)) \<and>
   (parsing a \<longrightarrow>
      registerToken nm m a = (Inl SyntaxError_WhilstParsing, a) \<and>
      registerHiddenToken nm m a = (Inl SyntaxError_WhilstParsing, a) \<and>
      parse main source a = (Inl SyntaxError_WhilstParsing, a))"
  by (simp add: peek_def read_def isEOF_def isPeekType_def registerToken_def
      registerHiddenToken_def addTokenType_def parse_def errorIfParsing_def
      errorIfNotParsing_def)

theorem mode_gating_witness:
  "\<not> parsing number_parser \<and>
   peek 0 number_parser = (Inl SyntaxError_NotParsing, number_parser) \<and>
   read ''NUMBER'' number_parser = (Inl SyntaxError_NotParsing, number_parser) \<and>
   isEOF number_parser = (Inl SyntaxError_NotParsing, number_parser) \<and>
   isPeekType ''NUMBER'' 0 number_parser = (Inl SyntaxError_NotParsing, number_parser) \<and>
   parsing (whilst_parsing ''1'' number_parser) \<and>
   registerToken (Some ''X'') (RegExpArg re_space) (whilst_parsing ''1'' number_parser) =
     (Inl SyntaxError_WhilstParsing, whilst_parsing ''1'' number_parser) \<and>
   registerHiddenToken (Some ''X'') (RegExpArg re_space) (whilst_parsing ''1'' number_parser) =
     (Inl SyntaxError_WhilstParsing, whilst_parsing ''1'' number_parser) \<and>
   parse (\<lambda>a. (Inr (), a)) ''2'' (whilst_parsing ''1'' number_parser) =
     (Inl SyntaxError_WhilstParsing, whilst_parsing ''1'' number_parser)"
proof -
  have n: "\<not> parsing number_parser"
    by (simp add: number_parser_def registerToken_def registerHiddenToken_def addTokenType_def
        errorIfParsing_def new_Anatomize_def)
  have p: "parsing (whilst_parsing ''1'' number_parser)" by (simp add: whilst_parsing_def)
  show ?thesis
    using n p mode_gating[of number_parser 0 "''NUMBER''"]
      mode_gating[of "whilst_parsing ''1'' number_parser" _ _ "Some ''X''" "RegExpArg re_space"
        "\<lambda>a. (Inr (), a)" "''2''"]
    by simp
qed

text \<open>
  C8. Every token stored in the lookahead buffer, and so every token that \<^verbatim>\<open>peek\<close> or
  \<^verbatim>\<open>read\<close> returns from it, has a non-empty value: \<^verbatim>\<open>#readToken\<close> emits a token only
  for a match with a value, a match without one being passed over (length zero) or
  discarded (positive length). This holds of the buffer however \<^verbatim>\<open>initialize\<close> ends.
\<close>

theorem tokens_never_empty:
  "initialize source tk = (out, tk') \<Longrightarrow>
   (\<forall>t. Some t \<in> set (lookaheadBuffer tk') \<longrightarrow> token_value t \<noteq> []) \<and>
   (\<forall>a offset T t. lookaheadBuffer (Tokenizer a) = lookaheadBuffer tk' \<longrightarrow>
      (fst (peek offset a) = Inr (Some t) \<longrightarrow> token_value t \<noteq> []) \<and>
      (fst (read T a) = Inr t \<longrightarrow> token_value t \<noteq> []))"
proof -
  assume i: "initialize source tk = (out, tk')"
  have "all_values_nonempty (lookaheadBuffer tk')"
    using i unfolding initialize_def
    by (rule fill_lookahead_values) (simp add: all_values_nonempty_def)
  then have v: "\<forall>t. Some t \<in> set (lookaheadBuffer tk') \<longrightarrow> token_value t \<noteq> []"
    by (simp add: all_values_nonempty_def)
  then show ?thesis using peek_in_buffer read_in_buffer by metis
qed

theorem tokens_never_empty_witness:
  "lookaheadBuffer (snd (initialize [CHR 0x0A, CHR ''1'', CHR ''2''] (Tokenizer number_parser))) =
     [Some newline_token, Some (number_token ''12'')] \<and>
   token_value newline_token \<noteq> [] \<and> token_value (number_token ''12'') \<noteq> [] \<and>
   fst (peek 0 (whilst_parsing [CHR 0x0A, CHR ''1'', CHR ''2''] number_parser)) =
     Inr (Some (number_token ''12'')) \<and>
   fst (read '';'' (whilst_parsing [CHR 0x0A, CHR ''1'', CHR ''2''] number_parser)) =
     Inr newline_token"
proof -
  let ?r = "initialize [CHR 0x0A, CHR ''1'', CHR ''2''] (Tokenizer number_parser)"
  let ?a = "whilst_parsing [CHR 0x0A, CHR ''1'', CHR ''2''] number_parser"
  have wb: "lookaheadBuffer (Tokenizer ?a) = [Some newline_token, Some (number_token ''12'')]"
    by (simp add: whilst_parsing_newline_12)
  then have buf: "lookaheadBuffer (snd ?r) = [Some newline_token, Some (number_token ''12'')]"
    by (simp add: whilst_parsing_def)
  have same: "lookaheadBuffer (Tokenizer ?a) = lookaheadBuffer (snd ?r)"
    by (simp add: whilst_parsing_def)
  have pk: "fst (peek 0 ?a) = Inr (Some (number_token ''12''))"
    by (simp add: peek_walk whilst_parsing_newline_12 entry_after_hidden_def is_hidden_def
        newline_token_def number_token_def)
  have rd: "fst (read '';'' ?a) = Inr newline_token"
    by (simp add: read_walk whilst_parsing_newline_12 skip_count_def skipped_by_read_def
        is_hidden_def type_of_def newline_token_def)
  have "?r = (fst ?r, snd ?r)" by simp
  note inst = tokens_never_empty[OF this]
  from inst have "\<forall>t. Some t \<in> set (lookaheadBuffer (snd ?r)) \<longrightarrow> token_value t \<noteq> []"
    by blast
  then have v: "token_value newline_token \<noteq> [] \<and> token_value (number_token ''12'') \<noteq> []"
    unfolding buf by simp
  from inst same pk have "token_value (number_token ''12'') \<noteq> []" by blast
  moreover from inst same rd have "token_value newline_token \<noteq> []" by blast
  ultimately show ?thesis using buf pk rd by blast
qed

text \<open>
  C9. \<^verbatim>\<open>read(T)\<close> is not atomic on failure: when it throws the wrong-token error, the
  read cursor has moved past every hidden token skipped on the way and past the token
  that was consumed last and had the wrong type. Nothing is restored: a later \<^verbatim>\<open>peek\<close>
  starts after them.
\<close>

theorem read_failure_consumes:
  "read T a = (Inl (SyntaxError_UnexpectedToken T got), a') \<Longrightarrow>
   a' = advanced (skip_count T (Tokenizer a) + 1) a \<and>
   lookaheadIndex (Tokenizer a) < lookaheadIndex (Tokenizer a') \<and>
   (\<exists>t. lookaheadBuffer (Tokenizer a) !
          (lookaheadIndex (Tokenizer a) + skip_count T (Tokenizer a)) = Some t \<and>
        token_type t = got \<and> got \<noteq> T) \<and>
   (\<forall>j < skip_count T (Tokenizer a).
      skipped_by_read T (lookaheadBuffer (Tokenizer a) ! (lookaheadIndex (Tokenizer a) + j))) \<and>
   (\<forall>offset. peek offset a' =
      (Inr (entry_after_hidden (lookaheadBuffer (Tokenizer a))
         (int (lookaheadIndex (Tokenizer a) + skip_count T (Tokenizer a) + 1) + offset)), a'))"
proof -
  assume r: "read T a = (Inl (SyntaxError_UnexpectedToken T got), a')"
  have p: "parsing a"
  proof (rule ccontr)
    assume "\<not> parsing a"
    then have "read T a = (Inl SyntaxError_NotParsing, a)"
      by (simp add: read_def errorIfNotParsing_def)
    with r show False by simp
  qed
  let ?k = "skip_count T (Tokenizer a)"
  let ?i = "lookaheadIndex (Tokenizer a)"
  let ?buf = "lookaheadBuffer (Tokenizer a)"
  from r have in_range: "?i + ?k < length ?buf"
    unfolding read_walk[OF p] by (auto split: if_splits)
  with r have a': "a' = advanced (?k + 1) a"
    and tok: "\<exists>t. ?buf ! (?i + ?k) = Some t \<and> token_type t = got \<and> got \<noteq> T"
    unfolding read_walk[OF p] by (auto split: if_splits option.splits)
  have p': "parsing a'" using p a' by (simp add: advanced_def)
  have "\<forall>offset. peek offset a' =
      (Inr (entry_after_hidden ?buf (int (?i + ?k + 1) + offset)), a')"
    using peek_walk[OF p'] a' by (simp add: advanced_def)
  moreover have "?i < lookaheadIndex (Tokenizer a')" using a' by (simp add: advanced_def)
  ultimately show ?thesis using a' tok skip_count_skipped by blast
qed

theorem read_failure_consumes_witness:
  "read ''X'' (whilst_parsing [CHR 0x0A, CHR ''1'', CHR ''2''] number_parser) =
     (Inl (SyntaxError_UnexpectedToken ''X'' ''NUMBER''),
      advanced 2 (whilst_parsing [CHR 0x0A, CHR ''1'', CHR ''2''] number_parser)) \<and>
   lookaheadIndex (Tokenizer (whilst_parsing [CHR 0x0A, CHR ''1'', CHR ''2''] number_parser))
     < lookaheadIndex (Tokenizer
         (advanced 2 (whilst_parsing [CHR 0x0A, CHR ''1'', CHR ''2''] number_parser))) \<and>
   peek 0 (advanced 2 (whilst_parsing [CHR 0x0A, CHR ''1'', CHR ''2''] number_parser)) =
     (Inr None, advanced 2 (whilst_parsing [CHR 0x0A, CHR ''1'', CHR ''2''] number_parser))"
proof -
  let ?a = "whilst_parsing [CHR 0x0A, CHR ''1'', CHR ''2''] number_parser"
  have p: "parsing ?a" by (simp add: whilst_parsing_def)
  have r: "read ''X'' ?a = (Inl (SyntaxError_UnexpectedToken ''X'' ''NUMBER''), advanced 2 ?a)"
    by (simp add: read_walk skip_count_def skipped_by_read_def is_hidden_def type_of_def
        whilst_parsing_newline_12 advanced_def number_token_def newline_token_def)
  have sc: "skip_count ''X'' (Tokenizer ?a) = 1"
    by (simp add: skip_count_def skipped_by_read_def is_hidden_def type_of_def
        whilst_parsing_newline_12 number_token_def newline_token_def)
  have e: "entry_after_hidden (lookaheadBuffer (Tokenizer ?a))
             (int (lookaheadIndex (Tokenizer ?a) + skip_count ''X'' (Tokenizer ?a) + 1) + 0) = None"
    unfolding sc by (simp add: entry_after_hidden_def whilst_parsing_newline_12)
  note c = read_failure_consumes[OF r]
  have lt: "lookaheadIndex (Tokenizer ?a) < lookaheadIndex (Tokenizer (advanced 2 ?a))"
    using c by blast
  have "peek 0 (advanced 2 ?a) =
      (Inr (entry_after_hidden (lookaheadBuffer (Tokenizer ?a))
         (int (lookaheadIndex (Tokenizer ?a) + skip_count ''X'' (Tokenizer ?a) + 1) + 0)),
       advanced 2 ?a)"
    using c by blast
  then have "peek 0 (advanced 2 ?a) = (Inr None, advanced 2 ?a)"
    by (simp only: e)
  with r lt show ?thesis by blast
qed

text \<open>
  C10. The offset of \<^verbatim>\<open>peek\<close> indexes the raw buffer, hidden tokens included. As the
  claim states it, a hidden token at or after the read cursor always gives two distinct
  offsets at which \<^verbatim>\<open>peek\<close> returns the very same non-hidden token; that fails when no
  non-hidden token follows, as on the source of one newline, where \<^verbatim>\<open>peek\<close> returns
  nothing at every offset.
\<close>

theorem peek_offsets_counterexample:
  "parsing (whilst_parsing [CHR 0x0A] number_parser) \<and>
   lookaheadIndex (Tokenizer (whilst_parsing [CHR 0x0A] number_parser)) = 0 \<and>
   lookaheadBuffer (Tokenizer (whilst_parsing [CHR 0x0A] number_parser)) =
     [Some newline_token] \<and>
   is_hidden (Some newline_token) \<and>
   \<not> (\<exists>k k' t. k \<noteq> k' \<and> \<not> token_hidden t \<and>
          fst (peek k (whilst_parsing [CHR 0x0A] number_parser)) = Inr (Some t) \<and>
          fst (peek k' (whilst_parsing [CHR 0x0A] number_parser)) = Inr (Some t))"
proof -
  let ?a = "whilst_parsing [CHR 0x0A] number_parser"
  have p: "parsing ?a" by (simp add: whilst_parsing_def)
  have st: "lookaheadIndex (Tokenizer ?a) = 0"
    "lookaheadBuffer (Tokenizer ?a) = [Some newline_token]"
    by (simp_all add: whilst_parsing_newline)
  have hid: "is_hidden (Some newline_token)"
    by (simp add: is_hidden_def newline_token_def)
  have none: "fst (peek k ?a) = Inr None" for k
  proof -
    have "entry_after_hidden [Some newline_token] k = None"
      by (cases "nat k") (auto simp: entry_after_hidden_def is_hidden_def newline_token_def)
    then show ?thesis by (simp add: peek_walk[OF p] st)
  qed
  have "\<not> (\<exists>k k' t. k \<noteq> k' \<and> \<not> token_hidden t \<and>
          fst (peek k ?a) = Inr (Some t) \<and> fst (peek k' ?a) = Inr (Some t))"
    by (simp add: none)
  with p st hid show ?thesis by blast
qed

text \<open>
  C10, as amended. For a hidden token at position \<open>p\<close> at or after the cursor, \<^verbatim>\<open>peek\<close>
  returns the same at the offsets \<open>p - cursor\<close> and \<open>p - cursor + 1\<close>, namely the entry on
  which the walk from \<open>p + 1\<close> ends: the same non-hidden token when one follows the hidden
  tokens at \<open>p\<close>, nothing at both offsets otherwise.
\<close>

theorem peek_offsets_coincide:
  "parsing a \<Longrightarrow> lookaheadIndex (Tokenizer a) \<le> p \<Longrightarrow>
   p < length (lookaheadBuffer (Tokenizer a)) \<Longrightarrow>
   is_hidden (lookaheadBuffer (Tokenizer a) ! p) \<Longrightarrow>
   peek (int p - int (lookaheadIndex (Tokenizer a))) a =
     peek (int p - int (lookaheadIndex (Tokenizer a)) + 1) a \<and>
   fst (peek (int p - int (lookaheadIndex (Tokenizer a))) a) =
     Inr (entry_after_hidden (lookaheadBuffer (Tokenizer a)) (int p + 1)) \<and>
   \<not> is_hidden (entry_after_hidden (lookaheadBuffer (Tokenizer a)) (int p + 1))"
proof -
  assume p: "parsing a" and le: "lookaheadIndex (Tokenizer a) \<le> p"
    and lt: "p < length (lookaheadBuffer (Tokenizer a))"
    and hid: "is_hidden (lookaheadBuffer (Tokenizer a) ! p)"
  let ?buf = "lookaheadBuffer (Tokenizer a)"
  let ?k = "int p - int (lookaheadIndex (Tokenizer a))"
  have "entry_after_hidden ?buf (int p) = entry_after_hidden ?buf (int p + 1)"
    using lt hid by (intro entry_after_hidden_step) simp_all
  moreover have "int (lookaheadIndex (Tokenizer a)) + ?k = int p" by simp
  moreover have "int (lookaheadIndex (Tokenizer a)) + (?k + 1) = int p + 1" by simp
  ultimately show ?thesis
    using peek_walk[OF p, of ?k] peek_walk[OF p, of "?k + 1"] entry_after_hidden_visible
    by simp
qed

theorem peek_offsets_coincide_witness:
  "peek 0 (whilst_parsing [CHR 0x0A, CHR ''1'', CHR ''2''] number_parser) =
     peek 1 (whilst_parsing [CHR 0x0A, CHR ''1'', CHR ''2''] number_parser) \<and>
   fst (peek 0 (whilst_parsing [CHR 0x0A, CHR ''1'', CHR ''2''] number_parser)) =
     Inr (Some (number_token ''12''))"
proof -
  let ?a = "whilst_parsing [CHR 0x0A, CHR ''1'', CHR ''2''] number_parser"
  have p: "parsing ?a" by (simp add: whilst_parsing_def)
  have le: "lookaheadIndex (Tokenizer ?a) \<le> 0" by (simp add: whilst_parsing_newline_12)
  have lt: "0 < length (lookaheadBuffer (Tokenizer ?a))" by (simp add: whilst_parsing_newline_12)
  have hid: "is_hidden (lookaheadBuffer (Tokenizer ?a) ! 0)"
    by (simp add: whilst_parsing_newline_12 is_hidden_def newline_token_def)
  have i: "int 0 - int (lookaheadIndex (Tokenizer ?a)) = 0" by (simp add: whilst_parsing_newline_12)
  have e: "entry_after_hidden (lookaheadBuffer (Tokenizer ?a)) (int 0 + 1) = Some (number_token ''12'')"
    by (simp add: whilst_parsing_newline_12 entry_after_hidden_def is_hidden_def number_token_def)
  have one: "(0::int) + 1 = 1" by simp
  from peek_offsets_coincide[OF p le lt hid] show ?thesis unfolding i e one by blast
qed

end
